theory Spec2Isabelle
  imports Complex_Main "HOL-Library.Word" "HOL-Library.Log_Nat"
begin

text \<open>
  A shallow embedding of the terminal ASCII video player (\<open>player.py\<close>, and the copy of
  it that \<open>install_ascii_player.py\<close> carries as a string, which differs in the two status
  lines only): the renderer \<open>frame_to_ascii\<close>, the scheduler \<open>play\<close> and the command line
  \<open>main\<close>, over a model of Python's numbers and of the OpenCV capture.
\<close>

section \<open>Python and NumPy numbers\<close>

text \<open>
  The player computes with Python \<open>int\<close> (unbounded, modelled as \<^typ>\<open>int\<close>), with
  \<open>numpy.uint8\<close> pixels (modelled as \<^typ>\<open>8 word\<close>) and with IEEE 754 binary64 floats
  (Python \<open>float\<close>, \<open>numpy.float64\<close>). A finite double is modelled by the rational
  number it denotes; every arithmetic result is rounded to the nearest double, ties to
  even, by \<open>fl\<close>. The two zeros are not distinguished.
\<close>

datatype exn =
    KeyboardInterrupt
  | ZeroDivisionError
  | OverflowError string
  | ValueError string
  | IndexError
  | CvError string
  | UnicodeEncodeError string

text \<open>\<open>KeyboardInterrupt\<close> derives from \<open>BaseException\<close>, every other one from \<open>Exception\<close>.\<close>

definition is_Exception :: "exn \<Rightarrow> bool" where
  "is_Exception e = (e \<noteq> KeyboardInterrupt)"

text \<open>\<open>str(e)\<close>, as the top level prints it.\<close>

fun exn_str :: "exn \<Rightarrow> string" where
  "exn_str KeyboardInterrupt = ''''"
| "exn_str ZeroDivisionError = ''division by zero''"
| "exn_str (OverflowError msg) = msg"
| "exn_str (ValueError msg) = msg"
| "exn_str IndexError = ''string index out of range''"
| "exn_str (CvError msg) = msg"
| "exn_str (UnicodeEncodeError msg) = msg"

datatype pyfloat = Finite rat | PosInf | NegInf | NaN

text \<open>Rounding a rational to an integer, ties to the even neighbour.\<close>

definition round_half_even :: "rat \<Rightarrow> int" where
  "round_half_even x =
     (let f = \<lfloor>x\<rfloor>; d = x - of_int f
      in if d < 1/2 then f
         else if 1/2 < d then f + 1
         else if even f then f else f + 1)"

text \<open>The binary exponent \<open>\<lfloor>log\<^sub>2 x\<rfloor>\<close> of a positive rational.\<close>

definition ilog2 :: "rat \<Rightarrow> int" where
  "ilog2 x = (if 1 \<le> x then bitlen \<lfloor>x\<rfloor> - 1 else - bitlen (\<lceil>1 / x\<rceil> - 1))"

text \<open>
  The spacing of the doubles around \<open>x\<close>: 53 significant bits, and the fixed spacing
  \<open>2 powi (- 1074)\<close> of the subnormal range below \<open>2 powi (- 1022)\<close>.
\<close>

definition ulp :: "rat \<Rightarrow> rat" where
  "ulp x = 2 powi (max (ilog2 \<bar>x\<bar>) (- 1022) - 52)"

definition fl :: "rat \<Rightarrow> rat" where
  "fl x = (if x = 0 then 0 else of_int (round_half_even (x / ulp x)) * ulp x)"

text \<open>
  A correctly rounded result, overflowing to an infinity beyond the largest double, that
  is, when the rounded value reaches \<open>2 ^ 1024\<close>.
\<close>

definition to_float :: "rat \<Rightarrow> pyfloat" where
  "to_float x =
     (let q = fl x
      in if 1024 \<le> ilog2 \<bar>q\<bar> then (if 0 < q then PosInf else NegInf)
         else Finite q)"

text \<open>IEEE multiplication and division of doubles.\<close>

fun float_mul :: "pyfloat \<Rightarrow> pyfloat \<Rightarrow> pyfloat" where
  "float_mul (Finite a) (Finite b) = to_float (a * b)"
| "float_mul NaN y = NaN"
| "float_mul x NaN = NaN"
| "float_mul (Finite a) y =
     (if a = 0 then NaN else if (0 < a) = (y = PosInf) then PosInf else NegInf)"
| "float_mul x (Finite b) =
     (if b = 0 then NaN else if (0 < b) = (x = PosInf) then PosInf else NegInf)"
| "float_mul x y = (if x = y then PosInf else NegInf)"

fun float_div :: "pyfloat \<Rightarrow> pyfloat \<Rightarrow> pyfloat" where
  "float_div (Finite a) (Finite b) =
     (if b = 0 then (if a = 0 then NaN else if 0 < a then PosInf else NegInf)
      else to_float (a / b))"
| "float_div NaN y = NaN"
| "float_div x NaN = NaN"
| "float_div (Finite a) y = Finite 0"
| "float_div x (Finite b) = (if (0 \<le> b) = (x = PosInf) then PosInf else NegInf)"
| "float_div x y = NaN"

text \<open>IEEE subtraction; the difference of two equal infinities is NaN.\<close>

fun float_sub :: "pyfloat \<Rightarrow> pyfloat \<Rightarrow> pyfloat" where
  "float_sub (Finite a) (Finite b) = to_float (a - b)"
| "float_sub NaN y = NaN"
| "float_sub x NaN = NaN"
| "float_sub (Finite a) PosInf = NegInf"
| "float_sub (Finite a) NegInf = PosInf"
| "float_sub x (Finite b) = x"
| "float_sub x y = (if x = y then NaN else x)"

text \<open>The comparison \<open>x > 0\<close> on floats; every comparison with NaN is false.\<close>

fun float_gt0 :: "pyfloat \<Rightarrow> bool" where
  "float_gt0 (Finite a) = (0 < a)"
| "float_gt0 PosInf = True"
| "float_gt0 NegInf = False"
| "float_gt0 NaN = False"

text \<open>Python's \<open>x / y\<close> on floats raises on a zero divisor before anything else.\<close>

definition py_float_truediv :: "pyfloat \<Rightarrow> pyfloat \<Rightarrow> exn + pyfloat" where
  "py_float_truediv x y = (if y = Finite 0 then Inl ZeroDivisionError else Inr (float_div x y))"

text \<open>
  Python's \<open>a / b\<close> on ints: the correctly rounded quotient, \<open>ZeroDivisionError\<close> for a
  zero divisor and \<open>OverflowError\<close> when the quotient exceeds the doubles.
\<close>

definition py_int_truediv :: "int \<Rightarrow> int \<Rightarrow> exn + pyfloat" where
  "py_int_truediv a b =
     (if b = 0 then Inl ZeroDivisionError
      else case to_float (of_int a / of_int b) of
             Finite q \<Rightarrow> Inr (Finite q)
           | _ \<Rightarrow> Inl (OverflowError ''integer division result too large for a float''))"

text \<open>The conversion of an int operand of a float operation.\<close>

definition py_float_of_int :: "int \<Rightarrow> exn + pyfloat" where
  "py_float_of_int k =
     (case to_float (of_int k) of
        Finite q \<Rightarrow> Inr (Finite q)
      | _ \<Rightarrow> Inl (OverflowError ''int too large to convert to float''))"

text \<open>\<open>int(x)\<close> truncates toward zero and refuses infinities and NaN.\<close>

fun py_int :: "pyfloat \<Rightarrow> exn + int" where
  "py_int (Finite a) = Inr (if 0 \<le> a then \<lfloor>a\<rfloor> else \<lceil>a\<rceil>)"
| "py_int PosInf = Inl (OverflowError ''cannot convert float infinity to integer'')"
| "py_int NegInf = Inl (OverflowError ''cannot convert float infinity to integer'')"
| "py_int NaN = Inl (ValueError ''cannot convert float NaN to integer'')"

text \<open>Indexing a string: negative indices count from the end.\<close>

definition py_getitem :: "string \<Rightarrow> int \<Rightarrow> exn + char" where
  "py_getitem s i =
     (if 0 \<le> i \<and> i < int (length s) then Inr (s ! nat i)
      else if - int (length s) \<le> i \<and> i < 0 then Inr (s ! nat (int (length s) + i))
      else Inl IndexError)"

section \<open>The frame source and the display\<close>

text \<open>
  OpenCV is an external collaborator. A \<open>cv2.VideoCapture\<close> is modelled by what the
  player observes of it: whether it opened, the properties it reports (doubles), the
  frames it will deliver, the read position, and a log of the seeks and releases it
  received. The frame type \<open>'f\<close> is left open.
\<close>

record 'f capture =
  is_opened :: bool
  prop_fps :: pyfloat
  prop_frame_count :: pyfloat
  prop_frame_width :: pyfloat
  prop_frame_height :: pyfloat
  frames :: "'f list"
  pos :: nat
  seeks :: "int list"
  releases :: nat

text \<open>
  \<open>cap.set(cv2.CAP_PROP_POS_FRAMES, i)\<close>: the property value is a C double, so an int
  beyond the doubles is refused with \<open>OverflowError\<close> before OpenCV sees it. A seek past
  the end leaves nothing to read.
\<close>

definition cap_set_pos :: "'f capture \<Rightarrow> int \<Rightarrow> exn + 'f capture" where
  "cap_set_pos c i =
     (case py_float_of_int i of
        Inl e \<Rightarrow> Inl e
      | Inr x \<Rightarrow> Inr (c\<lparr>pos := nat i, seeks := seeks c @ [i]\<rparr>))"

text \<open>\<open>cap.read()\<close>: the next frame, or \<open>ret = False\<close> at the end of the stream.\<close>

definition cap_read :: "'f capture \<Rightarrow> 'f option \<times> 'f capture" where
  "cap_read c =
     (if pos c < length (frames c) then (Some (frames c ! pos c), c\<lparr>pos := Suc (pos c)\<rparr>)
      else (None, c))"

definition cap_release :: "'f capture \<Rightarrow> 'f capture" where
  "cap_release c = c\<lparr>releases := Suc (releases c)\<rparr>"

text \<open>What the process does to its terminal, in order.\<close>

datatype event =
    Print string
  | Banner string int int int int pyfloat int
  | Pause
  | ClearScreen
  | CursorHome
  | Frame string
  | Progress int int pyfloat

text \<open>
  The environment of one run:
  \<^item> the file system test \<open>os.path.isfile\<close>;
  \<^item> the capture that \<open>cv2.VideoCapture(path)\<close> yields;
  \<^item> the grey image that \<open>cv2.cvtColor(cv2.resize(frame, (w, h)), COLOR_BGR2GRAY)\<close>
    yields (rows of \<open>uint8\<close>), and the message of the \<open>cv2.error\<close> with which \<open>resize\<close>
    refuses a target size \<open>(w, h)\<close> that is not positive;
  \<^item> the point of the run at which the user presses Ctrl+C, if at all, counted in
    interruptible points passed;
  \<^item> the reading of the wall clock \<open>time.time()\<close> at each point of the run, and what
    \<open>time.sleep\<close> raises, if anything, for a given duration (CPython refuses a duration
    beyond its timestamps with \<open>OverflowError\<close>);
  \<^item> the encoding of \<open>sys.stdout\<close>: for a character outside ASCII, given by its code
    point, either \<open>None\<close> when the encoding has it, or the message of the
    \<open>UnicodeEncodeError\<close> that printing one of the status lines with it raises.
\<close>

record 'f env =
  isfile :: "string \<Rightarrow> bool"
  video_capture :: "string \<Rightarrow> 'f capture"
  resize_gray :: "'f \<Rightarrow> nat \<Rightarrow> nat \<Rightarrow> 8 word list list"
  resize_error :: "int \<Rightarrow> int \<Rightarrow> string"
  sigint :: "nat option"
  time_time :: "nat \<Rightarrow> pyfloat"
  time_sleep :: "pyfloat \<Rightarrow> exn option"
  stdout_error :: "nat \<Rightarrow> string option"

section \<open>The player\<close>

definition ASCII_CHARS :: string where
  "ASCII_CHARS = ''@%#*+=-:. ''"

definition DETAILED_CHARS :: string where
  "DETAILED_CHARS =
     ''$@B%8&WM#*oahkbdpqwmZO0QLCJUYXzcvunxrjft/'' @ [CHR 0x5C] @
     ''|()1{}[]?-_+~<>i!lI;:,'' @ [CHR 0x22] @ ''^'' @ [CHR 0x60, CHR 0x27] @ ''. ''"

record player =
  video_path :: string
  width :: int
  detailed :: bool
  ascii_chars :: string
  fps :: pyfloat
  frame_count :: int
  original_width :: int
  original_height :: int
  height :: int

text \<open>\<open>int(self.width * self.original_height / self.original_width * 0.55)\<close>\<close>

definition compute_height :: "int \<Rightarrow> int \<Rightarrow> int \<Rightarrow> exn + int" where
  "compute_height w oh ow =
     (case py_int_truediv (w * oh) ow of
        Inl e \<Rightarrow> Inl e
      | Inr q \<Rightarrow> py_int (float_mul q (to_float (55 / 100))))"

text \<open>
  \<open>ASCIIVideoPlayer.__init__\<close>: the capture is returned beside the player, since
  \<open>self.cap\<close> is the one field that changes afterwards.
\<close>

definition init_player ::
  "'f env \<Rightarrow> string \<Rightarrow> int \<Rightarrow> bool \<Rightarrow> exn + (player \<times> 'f capture)" where
  "init_player env path w d =
     (let chars = (if d then DETAILED_CHARS else ASCII_CHARS);
          c = video_capture env path
      in if \<not> is_opened c then Inl (ValueError (''Cannot open video file: '' @ path))
         else case py_int (prop_frame_count c) of Inl e \<Rightarrow> Inl e | Inr fc \<Rightarrow>
              case py_int (prop_frame_width c) of Inl e \<Rightarrow> Inl e | Inr ow \<Rightarrow>
              case py_int (prop_frame_height c) of Inl e \<Rightarrow> Inl e | Inr oh \<Rightarrow>
              case compute_height w oh ow of Inl e \<Rightarrow> Inl e | Inr h \<Rightarrow>
                Inr (\<lparr>video_path = path, width = w, detailed = d, ascii_chars = chars,
                      fps = prop_fps c, frame_count = fc, original_width = ow,
                      original_height = oh, height = h\<rparr>, c))"

text \<open>The value of a \<open>numpy.uint8\<close> pixel, from 0 to 255.\<close>

definition luminance :: "8 word \<Rightarrow> nat" where
  "luminance pixel = unat pixel"

text \<open>\<open>int(pixel / 255 * (len(self.ascii_chars) - 1))\<close>\<close>

definition char_index :: "8 word \<Rightarrow> nat \<Rightarrow> exn + int" where
  "char_index pixel n =
     (case py_float_of_int (int n - 1) of
        Inl e \<Rightarrow> Inl e
      | Inr m \<Rightarrow> py_int (float_mul (float_div (Finite (of_nat (luminance pixel))) (Finite 255)) m))"

text \<open>The inner loop of \<open>frame_to_ascii\<close>, over the pixels of one row.\<close>

fun row_to_ascii :: "string \<Rightarrow> string \<Rightarrow> 8 word list \<Rightarrow> exn + string" where
  "row_to_ascii chars ascii_frame [] = Inr ascii_frame"
| "row_to_ascii chars ascii_frame (pixel # row) =
     (case char_index pixel (length chars) of
        Inl e \<Rightarrow> Inl e
      | Inr i \<Rightarrow>
          (case py_getitem chars i of
             Inl e \<Rightarrow> Inl e
           | Inr ch \<Rightarrow> row_to_ascii chars (ascii_frame @ [ch]) row))"

text \<open>The outer loop, over the rows; each row ends with a newline.\<close>

fun rows_to_ascii :: "string \<Rightarrow> string \<Rightarrow> 8 word list list \<Rightarrow> exn + string" where
  "rows_to_ascii chars ascii_frame [] = Inr ascii_frame"
| "rows_to_ascii chars ascii_frame (row # gray) =
     (case row_to_ascii chars ascii_frame row of
        Inl e \<Rightarrow> Inl e
      | Inr ascii_frame' \<Rightarrow> rows_to_ascii chars (ascii_frame' @ [CHR 0x0A]) gray)"

text \<open>
  \<open>frame_to_ascii\<close>. \<open>cv2.resize\<close> rejects a target size that is not positive in both
  directions.
\<close>

definition frame_to_ascii :: "'f env \<Rightarrow> player \<Rightarrow> 'f \<Rightarrow> exn + string" where
  "frame_to_ascii env p frame =
     (if width p \<le> 0 \<or> height p \<le> 0
      then Inl (CvError (resize_error env (width p) (height p)))
      else rows_to_ascii (ascii_chars p) []
             (resize_gray env frame (nat (width p)) (nat (height p))))"

section \<open>Playback\<close>

text \<open>
  The state that \<open>play\<close> changes: the capture \<open>self.cap\<close>, the terminal, the local
  variables \<open>frame_num\<close> and \<open>frame_delay\<close> (read only after \<open>play\<close> has assigned them),
  and the number of interruptible points passed so far.
\<close>

record 'f world =
  cap :: "'f capture"
  out :: "event list"
  frame_num :: int
  delay :: pyfloat
  ticks :: nat

text \<open>
  An interruptible point: \<open>KeyboardInterrupt\<close> is raised here when the user's Ctrl+C
  arrives at this point of the run.
\<close>

definition checkpoint :: "'f env \<Rightarrow> 'f world \<Rightarrow> exn + 'f world" where
  "checkpoint env w =
     (if sigint env = Some (ticks w) then Inl KeyboardInterrupt
      else Inr (w\<lparr>ticks := Suc (ticks w)\<rparr>))"

definition emit :: "event list \<Rightarrow> 'f world \<Rightarrow> 'f world" where
  "emit evs w = w\<lparr>out := out w @ evs\<rparr>"

text \<open>\<open>frame_delay = 1.0 / self.fps if self.fps > 0 else 0.033\<close>\<close>

definition frame_delay :: "pyfloat \<Rightarrow> exn + pyfloat" where
  "frame_delay f =
     (if float_gt0 f then py_float_truediv (Finite 1) f else Inr (to_float (33 / 1000)))"

text \<open>\<open>frame_num / self.frame_count * 100\<close>, the number the progress line formats.\<close>

definition percent :: "int \<Rightarrow> int \<Rightarrow> exn + pyfloat" where
  "percent n count =
     (case py_int_truediv n count of
        Inl e \<Rightarrow> Inl e
      | Inr q \<Rightarrow> Inr (float_mul q (Finite 100)))"

text \<open>
  The pacing at the end of an iteration: \<open>time.sleep(sleep_time)\<close> when \<open>sleep_time > 0\<close>,
  with whatever \<open>time.sleep\<close> raises for that duration.
\<close>

definition pace :: "'f env \<Rightarrow> pyfloat \<Rightarrow> exn + unit" where
  "pace env sleep_time =
     (if float_gt0 sleep_time
      then (case time_sleep env sleep_time of Some e \<Rightarrow> Inl e | None \<Rightarrow> Inr ())
      else Inr ())"

text \<open>
  One iteration of \<open>while True\<close>. The result is \<open>Inr True\<close> to go round again,
  \<open>Inr False\<close> for \<open>break\<close>, \<open>Inl e\<close> for an exception leaving the loop.
\<close>

definition play_step :: "'f env \<Rightarrow> player \<Rightarrow> 'f world \<Rightarrow> (exn + bool) \<times> 'f world" where
  "play_step env p w =
     (let start_time = time_time env (ticks w) in
      case checkpoint env w of Inl e \<Rightarrow> (Inl e, w) | Inr w1 \<Rightarrow>
      case cap_read (cap w1) of
        (None, c) \<Rightarrow> (Inr False, w1\<lparr>cap := c\<rparr>)
      | (Some frame, c) \<Rightarrow>
          (let w2 = w1\<lparr>cap := c\<rparr> in
           case checkpoint env w2 of Inl e \<Rightarrow> (Inl e, w2) | Inr w3 \<Rightarrow>
           case frame_to_ascii env p frame of Inl e \<Rightarrow> (Inl e, w3) | Inr ascii_frame \<Rightarrow>
           case checkpoint env w3 of Inl e \<Rightarrow> (Inl e, w3) | Inr w4 \<Rightarrow>
           (let w5 = emit [CursorHome, Frame ascii_frame] w4 in
            case percent (frame_num w5) (frame_count p) of Inl e \<Rightarrow> (Inl e, w5) | Inr pct \<Rightarrow>
            (let w6 = emit [Progress (frame_num w5) (frame_count p) pct] w5;
                 w7 = w6\<lparr>frame_num := frame_num w6 + 1\<rparr>;
                 elapsed = float_sub (time_time env (ticks w7)) start_time;
                 sleep_time = float_sub (delay w7) elapsed in
             case checkpoint env w7 of Inl e \<Rightarrow> (Inl e, w7) | Inr w8 \<Rightarrow>
             case pace env sleep_time of Inl e \<Rightarrow> (Inl e, w8) | Inr u \<Rightarrow> (Inr True, w8)))))"

text \<open>The loop ends because every iteration that goes round again has read a frame.\<close>

function play_loop :: "'f env \<Rightarrow> player \<Rightarrow> 'f world \<Rightarrow> (exn + unit) \<times> 'f world" where
  "play_loop env p w =
     (case play_step env p w of
        (Inl e, w') \<Rightarrow> (Inl e, w')
      | (Inr False, w') \<Rightarrow> (Inr (), w')
      | (Inr True, w') \<Rightarrow> play_loop env p w')"
  by pat_completeness auto
termination
proof (relation "measure (\<lambda>(env, p, w). length (frames (cap w)) - pos (cap w))", goal_cases)
  case 1
  show ?case by simp
next
  case (2 env p w r w' b)
  then have "play_step env p w = (Inr True, w')" by simp
  then have "frames (cap w') = frames (cap w) \<and> pos (cap w') = Suc (pos (cap w))
      \<and> pos (cap w) < length (frames (cap w))"
    by (auto simp: play_step_def checkpoint_def cap_read_def emit_def Let_def
        split: if_splits sum.splits option.splits prod.splits)
  then show ?case by (simp, arith)
qed

declare play_loop.simps [simp del]

text \<open>
  The status lines of the standalone script, in UTF-8. Each carries one character outside
  ASCII: the check mark U+2713 and the pause sign U+23F8.
\<close>

definition CHECK_MARK :: nat where
  "CHECK_MARK = 0x2713"

definition PAUSE_SIGN :: nat where
  "PAUSE_SIGN = 0x23F8"

text \<open>The three bytes of the UTF-8 form of a character from U+0800 to U+FFFF.\<close>

definition utf8 :: "nat \<Rightarrow> string" where
  "utf8 c =
     [char_of (224 + c div 4096), char_of (128 + c div 64 mod 64), char_of (128 + c mod 64)]"

definition complete_msg :: string where
  "complete_msg = [CHR 0x0A, CHR 0x0A, CHR 0xE2, CHR 0x9C, CHR 0x93] @ '' Video playback complete!''"

definition stopped_msg :: string where
  "stopped_msg = [CHR 0x0A, CHR 0x0A, CHR 0xE2, CHR 0x8F, CHR 0xB8] @ '' Playback stopped by user''"

text \<open>
  \<open>print\<close> of a status line: \<open>sys.stdout\<close> encodes the text, and raises
  \<open>UnicodeEncodeError\<close> when its encoding lacks the symbol of the line. Every other line
  that the player prints is made of ASCII literals, numbers, ramp characters and the path,
  which are taken to be printable.
\<close>

definition print_status :: "'f env \<Rightarrow> nat \<Rightarrow> string \<Rightarrow> 'f world \<Rightarrow> exn + 'f world" where
  "print_status env symbol line w =
     (case stdout_error env symbol of
        Some msg \<Rightarrow> Inl (UnicodeEncodeError msg)
      | None \<Rightarrow> Inr (emit [Print line] w))"

text \<open>
  The statements of \<open>play\<close> before the loop: the seek, the delay, the banner, the
  two-second pause and the clearing of the screen.
\<close>

definition play_init :: "'f env \<Rightarrow> player \<Rightarrow> int \<Rightarrow> 'f world \<Rightarrow> (exn + pyfloat) \<times> 'f world" where
  "play_init env p start_frame w =
     (case checkpoint env w of Inl e \<Rightarrow> (Inl e, w) | Inr w1 \<Rightarrow>
      case (if 0 < start_frame
            then (case cap_set_pos (cap w1) start_frame of
                    Inl e \<Rightarrow> Inl e
                  | Inr c \<Rightarrow> Inr (w1\<lparr>cap := c\<rparr>))
            else Inr w1) of Inl e \<Rightarrow> (Inl e, w1) | Inr w2 \<Rightarrow>
      (case frame_delay (fps p) of Inl e \<Rightarrow> (Inl e, w2) | Inr d \<Rightarrow>
       (let w3 = w2\<lparr>delay := d, frame_num := start_frame\<rparr> in
        case checkpoint env w3 of Inl e \<Rightarrow> (Inl e, w3) | Inr w4 \<Rightarrow>
        (let w5 = emit [Banner (video_path p) (original_width p) (original_height p)
                          (width p) (height p) (fps p) (frame_count p)] w4 in
         case checkpoint env w5 of Inl e \<Rightarrow> (Inl e, w5) | Inr w6 \<Rightarrow>
         (case time_sleep env (Finite 2) of Some e \<Rightarrow> (Inl e, w6) | None \<Rightarrow>
          (let w7 = emit [Pause] w6 in
           case checkpoint env w7 of Inl e \<Rightarrow> (Inl e, w7) | Inr w8 \<Rightarrow>
             (Inr d, emit [ClearScreen] w8)))))))"

text \<open>The body of the \<open>try\<close> block of \<open>play\<close>.\<close>

definition play_body :: "'f env \<Rightarrow> player \<Rightarrow> int \<Rightarrow> 'f world \<Rightarrow> (exn + unit) \<times> 'f world" where
  "play_body env p start_frame w =
     (case play_init env p start_frame w of (Inl e, w9) \<Rightarrow> (Inl e, w9) | (Inr d, w9) \<Rightarrow>
      case play_loop env p w9 of (Inl e, w10) \<Rightarrow> (Inl e, w10) | (Inr u, w10) \<Rightarrow>
      case checkpoint env w10 of Inl e \<Rightarrow> (Inl e, w10) | Inr w11 \<Rightarrow>
      case print_status env CHECK_MARK complete_msg w11 of
        Inl e \<Rightarrow> (Inl e, w11)
      | Inr w12 \<Rightarrow> (Inr (), w12))"

text \<open>\<open>cleanup\<close> releases the capture.\<close>

definition cleanup :: "'f world \<Rightarrow> 'f world" where
  "cleanup w = w\<lparr>cap := cap_release (cap w)\<rparr>"

text \<open>
  \<open>play\<close>: the \<open>try\<close> block, the handler for \<open>KeyboardInterrupt\<close>, and the \<open>finally\<close>
  clause, which runs whatever left the block or the handler; an exception raised by the
  handler's own \<open>print\<close> travels on to the caller.
\<close>

definition play :: "'f env \<Rightarrow> player \<Rightarrow> int \<Rightarrow> 'f world \<Rightarrow> (exn + unit) \<times> 'f world" where
  "play env p start_frame w =
     (case play_body env p start_frame w of
        (Inr u, w') \<Rightarrow> (Inr (), cleanup w')
      | (Inl e, w') \<Rightarrow>
          (if e = KeyboardInterrupt then
             (case print_status env PAUSE_SIGN stopped_msg w' of
                Inl e' \<Rightarrow> (Inl e', cleanup w')
              | Inr w'' \<Rightarrow> (Inr (), cleanup w''))
           else (Inl e, cleanup w')))"

section \<open>The command line\<close>

record args =
  video :: string
  arg_width :: int
  arg_detailed :: bool
  arg_start :: int

text \<open>What a run of \<open>main\<close> leaves behind.\<close>

record 'f run =
  exit_code :: int
  printed :: "event list"
  opened :: "string list"
  final_cap :: "'f capture option"

text \<open>
  \<open>main\<close>, after argument parsing. A run that ends without \<open>sys.exit\<close> has exit code 0;
  an exception that is not an \<open>Exception\<close> would leave through the interpreter, which
  reports an interrupt as 130.
\<close>

definition main :: "'f env \<Rightarrow> args \<Rightarrow> 'f run" where
  "main env a =
     (if \<not> isfile env (video a) then
        \<lparr>exit_code = 1, printed = [Print (''Error: File not found: '' @ video a)],
         opened = [], final_cap = None\<rparr>
      else case init_player env (video a) (arg_width a) (arg_detailed a) of
        Inl e \<Rightarrow>
          \<lparr>exit_code = 1, printed = [Print (''Error: '' @ exn_str e)],
           opened = [video a], final_cap = None\<rparr>
      | Inr (p, c) \<Rightarrow>
          (case play env p (arg_start a)
                  \<lparr>cap = c, out = [], frame_num = 0, delay = Finite 0, ticks = 0\<rparr> of
             (Inr u, w) \<Rightarrow>
               \<lparr>exit_code = 0, printed = out w, opened = [video a], final_cap = Some (cap w)\<rparr>
           | (Inl e, w) \<Rightarrow>
               (if is_Exception e then
                  \<lparr>exit_code = 1, printed = out w @ [Print (''Error: '' @ exn_str e)],
                   opened = [video a], final_cap = Some (cap w)\<rparr>
                else
                  \<lparr>exit_code = 130, printed = out w, opened = [video a],
                   final_cap = Some (cap w)\<rparr>)))"

section \<open>Observations and reference functions\<close>

text \<open>The states at which the loop of \<open>play\<close> starts an iteration, from a given entry state.\<close>

inductive at_loop_head :: "'f env \<Rightarrow> player \<Rightarrow> 'f world \<Rightarrow> 'f world \<Rightarrow> bool"
  for env :: "'f env" and p :: player and w0 :: "'f world" where
  entry: "at_loop_head env p w0 w0"
| again: "at_loop_head env p w0 w \<Longrightarrow> play_step env p w = (Inr True, w') \<Longrightarrow> at_loop_head env p w0 w'"

text \<open>
  The frame counters of the progress lines, the frames and the status lines that a run
  has put on the terminal.
\<close>

fun counters :: "event list \<Rightarrow> int list" where
  "counters [] = []"
| "counters (Progress n c x # evs) = n # counters evs"
| "counters (ev # evs) = counters evs"

fun shown :: "event list \<Rightarrow> string list" where
  "shown [] = []"
| "shown (Frame s # evs) = s # shown evs"
| "shown (ev # evs) = shown evs"

fun statuses :: "event list \<Rightarrow> string list" where
  "statuses [] = []"
| "statuses (Print s # evs) = s # statuses evs"
| "statuses (ev # evs) = statuses evs"

text \<open>The height as the specification words it: rounded to the nearest integer.\<close>

definition spec_height :: "int \<Rightarrow> int \<Rightarrow> int \<Rightarrow> int" where
  "spec_height w oh ow = round (of_int w * of_int oh / of_int ow * (55 / 100) :: rat)"

text \<open>The exact integer part of the same quantity.\<close>

definition exact_height :: "int \<Rightarrow> int \<Rightarrow> int \<Rightarrow> int" where
  "exact_height w oh ow = \<lfloor>of_int w * of_int oh / of_int ow * (55 / 100) :: rat\<rfloor>"

text \<open>
  The glyph index as the specification words it: \<open>floor(L / 255 * (n - 1))\<close> in exact
  arithmetic, clamped to the ramp.
\<close>

definition spec_glyph_index :: "8 word \<Rightarrow> nat \<Rightarrow> int" where
  "spec_glyph_index pixel n =
     max 0 (min (int n - 1) \<lfloor>of_nat (luminance pixel) / 255 * (of_nat n - 1) :: rat\<rfloor>)"

text \<open>The lines of a text block in which every line ends with a newline.\<close>

definition text_block :: "string list \<Rightarrow> string" where
  "text_block ls = concat (map (\<lambda>l. l @ [CHR 0x0A]) ls)"

section \<open>A sample clip\<close>

text \<open>
  Two frames of 100 by 200 pixels at 30 frames per second, played one character wide (and
  so one character high); a frame is given by its brightness, and resizing yields a
  uniform grey image. The reported frame count and the moment of the interrupt vary. The
  clock stands still, so that every iteration sleeps for the whole frame delay, and the
  terminal can encode every character.
\<close>

definition clip :: "pyfloat \<Rightarrow> nat capture" where
  "clip n = \<lparr>is_opened = True, prop_fps = Finite 30, prop_frame_count = n,
     prop_frame_width = Finite 100, prop_frame_height = Finite 200,
     frames = [0, 255], pos = 0, seeks = [], releases = 0\<rparr>"

definition sample_env :: "pyfloat \<Rightarrow> nat option \<Rightarrow> nat env" where
  "sample_env n sig = \<lparr>isfile = (\<lambda>path. path = ''clip.mp4''),
     video_capture = (\<lambda>path. clip n),
     resize_gray = (\<lambda>f w h. replicate h (replicate w (of_nat f))),
     resize_error = (\<lambda>w h. ''empty size''),
     sigint = sig,
     time_time = (\<lambda>k. Finite 0),
     time_sleep = (\<lambda>x. None),
     stdout_error = (\<lambda>c. None)\<rparr>"

text \<open>
  The same with a standard output in the Windows-1252 encoding, which has neither the
  check mark nor the pause sign; the message is the one of Python's \<open>charmap\<close> codec.
\<close>

definition charmap_error :: "string \<Rightarrow> string" where
  "charmap_error hex =
     [CHR 0x27] @ ''charmap'' @ [CHR 0x27] @ '' codec can'' @ [CHR 0x27] @
     ''t encode character '' @ [CHR 0x27, CHR 0x5C] @ ''u'' @ hex @ [CHR 0x27] @
     '' in position 2: character maps to <undefined>''"

definition cp1252_stdout :: "nat \<Rightarrow> string option" where
  "cp1252_stdout c =
     (if c = 0x2713 then Some (charmap_error ''2713'')
      else if c = 0x23F8 then Some (charmap_error ''23f8'')
      else None)"

definition cp1252_env :: "pyfloat \<Rightarrow> nat option \<Rightarrow> nat env" where
  "cp1252_env n sig = (sample_env n sig)\<lparr>stdout_error := cp1252_stdout\<rparr>"

definition sample_args :: "int \<Rightarrow> args" where
  "sample_args s = \<lparr>video = ''clip.mp4'', arg_width = 1, arg_detailed = False, arg_start = s\<rparr>"

definition sample_player :: "int \<Rightarrow> player" where
  "sample_player n = \<lparr>video_path = ''clip.mp4'', width = 1, detailed = False,
     ascii_chars = ASCII_CHARS, fps = Finite 30, frame_count = n, original_width = 100,
     original_height = 200, height = 1\<rparr>"

definition sample_world :: "pyfloat \<Rightarrow> nat world" where
  "sample_world n = \<lparr>cap = clip n, out = [], frame_num = 0, delay = Finite 0, ticks = 0\<rparr>"

text \<open>The sample at the entry of the loop, and after one more iteration.\<close>

definition sample_entry :: "int \<Rightarrow> nat world" where
  "sample_entry start =
     snd (play_init (sample_env (Finite 2) None) (sample_player 2) start (sample_world (Finite 2)))"

definition sample_next :: "nat world \<Rightarrow> nat world" where
  "sample_next s = snd (play_step (sample_env (Finite 2) None) (sample_player 2) s)"

section \<open>Properties of rounding\<close>

lemma two_powi_neg: "0 \<le> k \<Longrightarrow> (2::rat) powi (- k) = inverse (2 ^ nat k)"
  by (simp add: power_int_minus power_int_nonneg_exp)

lemma ilog2_bounds:
  assumes "0 < x"
  shows "2 powi (ilog2 x) \<le> x" and "x < 2 powi (ilog2 x + 1)"
proof -
  show "2 powi (ilog2 x) \<le> x"
  proof (cases "1 \<le> x")
    case True
    then have p: "0 < \<lfloor>x\<rfloor>" by simp
    from bitlen_bounds [OF p] have "2 ^ nat (bitlen \<lfloor>x\<rfloor> - 1) \<le> \<lfloor>x\<rfloor>" by simp
    then have "(of_int (2 ^ nat (bitlen \<lfloor>x\<rfloor> - 1)) :: rat) \<le> of_int \<lfloor>x\<rfloor>"
      by (simp only: of_int_le_iff)
    also have "\<dots> \<le> x" by simp
    finally have "(2::rat) ^ nat (bitlen \<lfloor>x\<rfloor> - 1) \<le> x" by simp
    moreover have "0 \<le> bitlen \<lfloor>x\<rfloor> - 1" using p by (simp add: bitlen_alt_def)
    ultimately show ?thesis using True by (simp add: ilog2_def power_int_def)
  next
    case False
    with assms have x: "0 < x" "x < 1" by simp_all
    let ?c = "\<lceil>1 / x\<rceil> - 1"
    have "1 < 1 / x" using x by (simp add: field_simps)
    then have p: "0 < ?c" by (simp add: less_ceiling_iff)
    from bitlen_bounds [OF p] have "?c < 2 ^ nat (bitlen ?c)" by simp
    then have "\<lceil>1 / x\<rceil> \<le> 2 ^ nat (bitlen ?c)" by simp
    then have "1 / x \<le> of_int (2 ^ nat (bitlen ?c))" by (simp only: ceiling_le_iff)
    then have "1 / x \<le> 2 ^ nat (bitlen ?c)" by simp
    then have "1 \<le> 2 ^ nat (bitlen ?c) * x" using x by (simp add: field_simps)
    then have "inverse (2 ^ nat (bitlen ?c)) \<le> x" by (simp add: field_simps)
    moreover have "0 \<le> bitlen ?c" by (rule bitlen_nonneg)
    ultimately show ?thesis using False
      by (simp add: ilog2_def two_powi_neg)
  qed
  show "x < 2 powi (ilog2 x + 1)"
  proof (cases "1 \<le> x")
    case True
    then have p: "0 < \<lfloor>x\<rfloor>" by simp
    from bitlen_bounds [OF p] have "\<lfloor>x\<rfloor> < 2 ^ nat (bitlen \<lfloor>x\<rfloor>)" by simp
    then have "x < of_int (2 ^ nat (bitlen \<lfloor>x\<rfloor>))" by (simp only: floor_less_iff)
    then have "x < 2 ^ nat (bitlen \<lfloor>x\<rfloor>)" by simp
    moreover have "0 \<le> bitlen \<lfloor>x\<rfloor>" by (rule bitlen_nonneg)
    ultimately show ?thesis using True by (simp add: ilog2_def power_int_def)
  next
    case False
    with assms have x: "0 < x" "x < 1" by simp_all
    let ?c = "\<lceil>1 / x\<rceil> - 1"
    have "1 < 1 / x" using x by (simp add: field_simps)
    then have p: "0 < ?c" by (simp add: less_ceiling_iff)
    then have b1: "1 \<le> bitlen ?c" by (simp add: bitlen_alt_def)
    from bitlen_bounds [OF p] have "2 ^ nat (bitlen ?c - 1) \<le> ?c" by simp
    then have "2 ^ nat (bitlen ?c - 1) < \<lceil>1 / x\<rceil>" by simp
    then have "of_int (2 ^ nat (bitlen ?c - 1)) < 1 / x" by (simp only: less_ceiling_iff)
    then have "2 ^ nat (bitlen ?c - 1) < 1 / x" by simp
    then have "2 ^ nat (bitlen ?c - 1) * x < 1" using x by (simp add: field_simps)
    then have "x < inverse (2 ^ nat (bitlen ?c - 1))" by (simp add: field_simps)
    moreover have "(2::rat) powi (- bitlen ?c + 1) = inverse (2 ^ nat (bitlen ?c - 1))"
      using b1 two_powi_neg [of "bitlen ?c - 1"] by simp
    ultimately show ?thesis using False
      by (simp add: ilog2_def)
  qed
qed

lemma ilog2_one: "ilog2 1 = 0"
  by (simp add: ilog2_def compute_bitlen)

lemma ilog2_mono:
  assumes "0 < x" "x \<le> y"
  shows "ilog2 x \<le> ilog2 y"
proof (rule ccontr)
  assume "\<not> ilog2 x \<le> ilog2 y"
  then have "ilog2 y + 1 \<le> ilog2 x" by simp
  then have "(2::rat) powi (ilog2 y + 1) \<le> 2 powi (ilog2 x)"
    by (rule power_int_increasing) simp
  also have "\<dots> \<le> x" using assms(1) by (rule ilog2_bounds)
  also have "\<dots> \<le> y" by fact
  also have "\<dots> < 2 powi (ilog2 y + 1)" using assms by (intro ilog2_bounds) simp
  finally show False by simp
qed

lemma round_half_even_of_int: "round_half_even (of_int k) = k"
  by (simp add: round_half_even_def)

lemma round_half_even_lower: "of_int (round_half_even x) - 1/2 \<le> x"
  by (auto simp: round_half_even_def Let_def) linarith+

lemma round_half_even_upper: "x \<le> of_int (round_half_even x) + 1/2"
  by (auto simp: round_half_even_def Let_def) linarith+

lemma round_half_even_ge_floor: "\<lfloor>x\<rfloor> \<le> round_half_even x"
  by (simp add: round_half_even_def Let_def)

lemma round_half_even_le_floor1: "round_half_even x \<le> \<lfloor>x\<rfloor> + 1"
  by (simp add: round_half_even_def Let_def)

lemma round_half_even_mono:
  assumes "x \<le> y"
  shows "round_half_even x \<le> round_half_even y"
proof (cases "\<lfloor>x\<rfloor> = \<lfloor>y\<rfloor>")
  case True
  with assms have "x - of_int \<lfloor>x\<rfloor> \<le> y - of_int \<lfloor>x\<rfloor>" by simp
  with True show ?thesis
    by (auto simp: round_half_even_def Let_def)
next
  case False
  moreover have "\<lfloor>x\<rfloor> \<le> \<lfloor>y\<rfloor>" using assms by (rule floor_mono)
  ultimately have "\<lfloor>x\<rfloor> + 1 \<le> \<lfloor>y\<rfloor>" by simp
  with round_half_even_le_floor1 [of x] round_half_even_ge_floor [of y]
  show ?thesis by linarith
qed

lemma ulp_pos: "0 < ulp x"
  by (simp add: ulp_def zero_less_power_int)

lemma ulp_mono:
  assumes "0 < x" "x \<le> y"
  shows "ulp x \<le> ulp y"
proof -
  have "ilog2 \<bar>x\<bar> \<le> ilog2 \<bar>y\<bar>" using assms by (intro ilog2_mono) simp_all
  then show ?thesis unfolding ulp_def by (intro power_int_increasing) simp_all
qed

text \<open>Rounding never crosses a point of the grid around \<open>x\<close>.\<close>

lemma fl_grid_upper:
  assumes "x \<le> of_int m * ulp x"
  shows "fl x \<le> of_int m * ulp x"
proof (cases "x = 0")
  case True
  with assms show ?thesis by (simp add: fl_def)
next
  case False
  from assms have "x / ulp x \<le> of_int m" using ulp_pos [of x] by (simp add: field_simps)
  then have "round_half_even (x / ulp x) \<le> round_half_even (of_int m)"
    by (rule round_half_even_mono)
  then have "round_half_even (x / ulp x) \<le> m" by (simp add: round_half_even_of_int)
  then have "(of_int (round_half_even (x / ulp x)) :: rat) \<le> of_int m" by (simp only: of_int_le_iff)
  then have "of_int (round_half_even (x / ulp x)) * ulp x \<le> of_int m * ulp x"
    using ulp_pos [of x] by (simp add: mult_right_mono)
  with False show ?thesis by (simp add: fl_def)
qed

lemma fl_grid_lower:
  assumes "of_int m * ulp x \<le> x"
  shows "of_int m * ulp x \<le> fl x"
proof (cases "x = 0")
  case True
  with assms show ?thesis by (simp add: fl_def)
next
  case False
  from assms have "of_int m \<le> x / ulp x" using ulp_pos [of x] by (simp add: field_simps)
  then have "round_half_even (of_int m) \<le> round_half_even (x / ulp x)"
    by (rule round_half_even_mono)
  then have "m \<le> round_half_even (x / ulp x)" by (simp add: round_half_even_of_int)
  then have "(of_int m :: rat) \<le> of_int (round_half_even (x / ulp x))" by (simp only: of_int_le_iff)
  then have "of_int m * ulp x \<le> of_int (round_half_even (x / ulp x)) * ulp x"
    using ulp_pos [of x] by (simp add: mult_right_mono)
  with False show ?thesis by (simp add: fl_def)
qed

lemma fl_grid_id:
  assumes "x = of_int m * ulp x"
  shows "fl x = x"
proof -
  have "fl x \<le> of_int m * ulp x" using assms by (intro fl_grid_upper) simp
  moreover have "of_int m * ulp x \<le> fl x" using assms by (intro fl_grid_lower) simp
  ultimately show ?thesis using assms by simp
qed

lemma fl_nonneg:
  assumes "0 \<le> x"
  shows "0 \<le> fl x"
  using fl_grid_lower [of 0 x] assms by simp

lemma fl_nonpos:
  assumes "x \<le> 0"
  shows "fl x \<le> 0"
  using fl_grid_upper [of x 0] assms by simp

lemma pow_next_binade:
  "of_int (2 ^ 53) * ulp x = 2 powi (max (ilog2 \<bar>x\<bar>) (- 1022) + 1)"
proof -
  have "(2::rat) powi (53 + (max (ilog2 \<bar>x\<bar>) (- 1022) - 52)) = 2 powi 53 * ulp x"
    unfolding ulp_def by (rule power_int_add) simp
  then show ?thesis by (simp add: add.commute)
qed

lemma pow_this_binade:
  "of_int (2 ^ 52) * ulp x = 2 powi (max (ilog2 \<bar>x\<bar>) (- 1022))"
proof -
  have "(2::rat) powi (52 + (max (ilog2 \<bar>x\<bar>) (- 1022) - 52)) = 2 powi 52 * ulp x"
    unfolding ulp_def by (rule power_int_add) simp
  then show ?thesis by simp
qed

lemma fl_mono_pos:
  assumes "0 < x" "x \<le> y"
  shows "fl x \<le> fl y"
proof (cases "ulp x = ulp y")
  case True
  have "x / ulp y \<le> y / ulp y" using assms ulp_pos [of y] by (simp add: divide_right_mono)
  then have "round_half_even (x / ulp y) \<le> round_half_even (y / ulp y)"
    by (rule round_half_even_mono)
  then have "(of_int (round_half_even (x / ulp y)) :: rat) \<le> of_int (round_half_even (y / ulp y))"
    by (simp only: of_int_le_iff)
  then have "of_int (round_half_even (x / ulp y)) * ulp y \<le> of_int (round_half_even (y / ulp y)) * ulp y"
    using ulp_pos [of y] by (simp add: mult_right_mono)
  with True assms show ?thesis by (simp add: fl_def)
next
  case False
  let ?ex = "max (ilog2 \<bar>x\<bar>) (- 1022)" and ?ey = "max (ilog2 \<bar>y\<bar>) (- 1022)"
  have y: "0 < y" using assms by simp
  have le: "ilog2 \<bar>x\<bar> \<le> ilog2 \<bar>y\<bar>" using assms by (intro ilog2_mono) simp_all
  have "?ex \<noteq> ?ey" using False by (auto simp: ulp_def)
  with le have lt: "?ex + 1 \<le> ?ey" and ey: "?ey = ilog2 y" using y by (auto simp: max_def)
  have "x < 2 powi (ilog2 x + 1)" using assms(1) by (rule ilog2_bounds)
  also have "\<dots> \<le> 2 powi (?ex + 1)" using assms(1) by (intro power_int_increasing) simp_all
  finally have "x \<le> of_int (2 ^ 53) * ulp x" by (simp only: pow_next_binade)
  then have "fl x \<le> of_int (2 ^ 53) * ulp x" by (rule fl_grid_upper)
  also have "\<dots> = 2 powi (?ex + 1)" by (rule pow_next_binade)
  also have "\<dots> \<le> 2 powi ?ey" using lt by (rule power_int_increasing) simp
  also have "\<dots> = of_int (2 ^ 52) * ulp y" by (simp only: pow_this_binade)
  also have "\<dots> \<le> fl y"
  proof (rule fl_grid_lower)
    have "of_int (2 ^ 52) * ulp y = 2 powi (ilog2 y)" using ey by (simp only: pow_this_binade)
    also have "\<dots> \<le> y" using y by (rule ilog2_bounds)
    finally show "of_int (2 ^ 52) * ulp y \<le> y" .
  qed
  finally show ?thesis .
qed

lemma fl_mono_nonneg:
  assumes "0 \<le> x" "x \<le> y"
  shows "fl x \<le> fl y"
proof (cases "x = 0")
  case True
  then have "fl x = 0" by (simp add: fl_def)
  moreover have "0 \<le> fl y" using assms by (intro fl_nonneg) simp
  ultimately show ?thesis by simp
next
  case False
  with assms have "0 < x" by simp
  then show ?thesis using assms(2) by (rule fl_mono_pos)
qed

text \<open>Integers of at most 53 bits are doubles.\<close>

lemma fl_of_int:
  assumes "0 \<le> k" "k \<le> 2 ^ 53"
  shows "fl (of_int k) = of_int k"
proof (cases "k = 0")
  case True
  then show ?thesis by (simp add: fl_def)
next
  case False
  with assms have k: "1 \<le> k" by simp
  let ?x = "of_int k :: rat"
  let ?e = "ilog2 ?x"
  have x: "0 < ?x" "\<bar>?x\<bar> = ?x" using k by simp_all
  have "ilog2 1 \<le> ?e" using k by (intro ilog2_mono) simp_all
  then have e0: "0 \<le> ?e" by (simp add: ilog2_one)
  have e53: "?e \<le> 53"
  proof (rule ccontr)
    assume "\<not> ?e \<le> 53"
    then have "54 \<le> ?e" by simp
    then have "(2::rat) powi 54 \<le> 2 powi ?e" by (rule power_int_increasing) simp
    also have "\<dots> \<le> ?x" using x(1) by (rule ilog2_bounds)
    also have "\<dots> \<le> of_int (2 ^ 53)" using assms(2) by (simp only: of_int_le_iff)
    finally show False by simp
  qed
  have u: "ulp ?x = 2 powi (?e - 52)" using e0 x by (simp add: ulp_def max_def)
  show ?thesis
  proof (cases "?e \<le> 52")
    case True
    have "(2::rat) powi (?e - 52) = inverse (2 ^ nat (52 - ?e))"
      using True two_powi_neg [of "52 - ?e"] by simp
    then have "?x = of_int (k * 2 ^ nat (52 - ?e)) * ulp ?x" by (simp add: u)
    then show ?thesis by (rule fl_grid_id)
  next
    case False
    with e53 have e: "?e = 53" by simp
    have "(2::rat) powi ?e \<le> ?x" using x(1) by (rule ilog2_bounds)
    then have "of_int (2 ^ 53) \<le> ?x" by (simp add: e)
    then have "2 ^ 53 \<le> k" by (simp only: of_int_le_iff)
    with assms have k53: "k = 2 ^ 53" by simp
    have "ulp ?x = 2" using u e by simp
    then have "?x = of_int (2 ^ 52) * ulp ?x" using k53 by simp
    then show ?thesis by (rule fl_grid_id)
  qed
qed

lemma fl_le_of_int:
  assumes "0 \<le> x" "x \<le> of_int k" "k \<le> 2 ^ 53"
  shows "fl x \<le> of_int k"
proof -
  have "(0::rat) \<le> of_int k" using assms(1,2) by (rule order_trans)
  then have k0: "0 \<le> k" by (simp only: of_int_0_le_iff)
  have "fl x \<le> fl (of_int k)" using assms(1,2) by (rule fl_mono_nonneg)
  also have "\<dots> = of_int k" using k0 assms(3) by (rule fl_of_int)
  finally show ?thesis .
qed

text \<open>The rounding error is at most half the spacing.\<close>

lemma fl_error: "\<bar>fl x - x\<bar> \<le> ulp x / 2"
proof (cases "x = 0")
  case True
  then show ?thesis using ulp_pos [of x] by (simp add: fl_def)
next
  case False
  let ?v = "x / ulp x"
  have u: "0 < ulp x" by (rule ulp_pos)
  have "\<bar>of_int (round_half_even ?v) - ?v\<bar> \<le> 1 / 2"
    using round_half_even_lower [of ?v] round_half_even_upper [of ?v] by linarith
  then have "\<bar>of_int (round_half_even ?v) - ?v\<bar> * ulp x \<le> 1 / 2 * ulp x"
    using u by (simp add: mult_right_mono)
  moreover have "(of_int (round_half_even ?v) - ?v) * ulp x
      = of_int (round_half_even ?v) * ulp x - x"
    using u by (simp add: left_diff_distrib)
  then have "\<bar>of_int (round_half_even ?v) - ?v\<bar> * ulp x
      = \<bar>of_int (round_half_even ?v) * ulp x - x\<bar>"
    using u abs_mult [of "of_int (round_half_even ?v) - ?v" "ulp x"] by simp
  ultimately show ?thesis using False by (simp add: fl_def)
qed

lemma ilog2_less:
  assumes "0 < x" "x < 2 powi k"
  shows "ilog2 x < k"
proof (rule ccontr)
  assume "\<not> ilog2 x < k"
  then have "(2::rat) powi k \<le> 2 powi (ilog2 x)" by (intro power_int_increasing) simp_all
  also have "\<dots> \<le> x" using assms(1) by (rule ilog2_bounds)
  finally show False using assms(2) by simp
qed

lemma ilog2_ge:
  assumes "2 powi k \<le> x"
  shows "k \<le> ilog2 x"
proof (rule ccontr)
  assume "\<not> k \<le> ilog2 x"
  then have "ilog2 x + 1 \<le> k" by simp
  then have "(2::rat) powi (ilog2 x + 1) \<le> 2 powi k" by (intro power_int_increasing) simp_all
  moreover have "(0::rat) < 2 powi k" by (rule zero_less_power_int) simp
  then have "0 < x" using assms by (rule less_le_trans)
  then have "x < 2 powi (ilog2 x + 1)" by (rule ilog2_bounds)
  ultimately show False using assms by simp
qed

lemma ulp_le_below:
  assumes "0 < x" "x < 2 powi k" "- 1021 \<le> k"
  shows "ulp x \<le> 2 powi (k - 53)"
proof -
  have "ilog2 \<bar>x\<bar> < k" using assms by (intro ilog2_less) simp_all
  then have "max (ilog2 \<bar>x\<bar>) (- 1022) - 52 \<le> k - 53" using assms(3) by simp
  then show ?thesis unfolding ulp_def by (intro power_int_increasing) simp_all
qed

lemma ulp_normal:
  assumes "2 powi (- 1022) \<le> x"
  shows "ulp x \<le> x / 2 ^ 52"
proof -
  have "(0::rat) < 2 powi (- 1022)" by (rule zero_less_power_int) simp
  then have x: "0 < x" using assms by (rule less_le_trans)
  have "- 1022 \<le> ilog2 x" using assms by (rule ilog2_ge)
  then have "ulp x = 2 powi (ilog2 x - 52)" using x by (simp add: ulp_def max_def)
  also have "\<dots> = 2 powi (ilog2 x) / 2 powi 52" by (rule power_int_diff) simp
  also have "\<dots> \<le> x / 2 powi 52" using ilog2_bounds(1) [OF x] by (simp add: divide_right_mono)
  finally show ?thesis by simp
qed

lemma ilog2_zero: "ilog2 0 = 0"
  by (simp add: ilog2_def bitlen_def floorlog_def)

text \<open>A rounded value below \<open>2 ^ 1024\<close> is a finite double.\<close>

lemma to_float_Finite:
  assumes "\<bar>fl x\<bar> < 2 ^ 1024"
  shows "to_float x = Finite (fl x)"
proof (cases "fl x = 0")
  case True
  then show ?thesis by (simp add: to_float_def ilog2_zero)
next
  case False
  then have "0 < \<bar>fl x\<bar>" by simp
  moreover have "\<bar>fl x\<bar> < 2 powi 1024" using assms by simp
  ultimately have "ilog2 \<bar>fl x\<bar> < 1024" by (rule ilog2_less)
  then show ?thesis by (simp add: to_float_def)
qed

lemma to_float_of_int:
  assumes "0 \<le> k" "k \<le> 2 ^ 53"
  shows "to_float (of_int k) = Finite (of_int k)"
proof -
  have f: "fl (of_int k) = of_int k" using assms by (rule fl_of_int)
  have "(of_int k :: rat) \<le> of_int (2 ^ 53)" using assms(2) by (simp only: of_int_le_iff)
  then have "\<bar>of_int k :: rat\<bar> < 2 ^ 1024" using assms(1) by simp
  then show ?thesis using to_float_Finite [of "of_int k"] f by simp
qed

lemma to_float_small:
  assumes "0 \<le> x" "x \<le> of_int k" "k \<le> 2 ^ 53"
  shows "to_float x = Finite (fl x)"
proof -
  have "fl x \<le> of_int k" using assms by (rule fl_le_of_int)
  also have "(of_int k :: rat) \<le> of_int (2 ^ 53)" using assms(3) by (simp only: of_int_le_iff)
  finally have "fl x < 2 ^ 1024" by simp
  moreover have "0 \<le> fl x" using assms(1) by (rule fl_nonneg)
  ultimately show ?thesis by (intro to_float_Finite) simp
qed

lemma one_over_mono:
  fixes a b :: rat
  assumes "0 < a" "a \<le> b"
  shows "1 / b \<le> 1 / a"
  using assms by (simp add: frac_le)

lemma abs_diff_bounds:
  fixes a b c :: rat
  assumes "\<bar>a - b\<bar> \<le> c"
  shows "b - c \<le> a" and "a \<le> b + c"
  using assms by linarith+

section \<open>Evaluating the number model\<close>

lemma floor_rat_numeral: "\<lfloor>numeral a / numeral b :: rat\<rfloor> = numeral a div numeral b"
  using floor_divide_of_int_eq [of "numeral a" "numeral b", where 'a = rat] by simp

lemma ceiling_rat_numeral: "\<lceil>numeral a / numeral b :: rat\<rceil> = - (- numeral a div numeral b)"
  using floor_divide_of_int_eq [of "- numeral a" "numeral b", where 'a = rat]
  by (simp add: ceiling_def)

lemma floor_rat_neg_numeral: "\<lfloor>- (numeral a / numeral b) :: rat\<rfloor> = - numeral a div numeral b"
  using floor_divide_of_int_eq [of "- numeral a" "numeral b", where 'a = rat] by simp

lemma ceiling_rat_neg_numeral: "\<lceil>- (numeral a / numeral b) :: rat\<rceil> = - (numeral a div numeral b)"
  using floor_divide_of_int_eq [of "numeral a" "numeral b", where 'a = rat]
  by (simp add: ceiling_def)

lemmas number_eval =
  floor_rat_numeral ceiling_rat_numeral floor_rat_neg_numeral ceiling_rat_neg_numeral
  compute_bitlen round_half_even_def ilog2_def ulp_def fl_def to_float_def Let_def
  py_int_truediv_def py_float_of_int_def py_float_truediv_def

section \<open>The height\<close>

lemma fl_relative_error:
  assumes "2 powi (- 1022) \<le> x"
  shows "x - x / 2 ^ 53 \<le> fl x" and "fl x \<le> x + x / 2 ^ 53"
proof -
  have "\<bar>fl x - x\<bar> \<le> ulp x / 2" by (rule fl_error)
  also have "\<dots> \<le> x / 2 ^ 52 / 2" using ulp_normal [OF assms] by simp
  finally have "\<bar>fl x - x\<bar> \<le> x / 2 ^ 53" by simp
  then show "x - x / 2 ^ 53 \<le> fl x" and "fl x \<le> x + x / 2 ^ 53"
    by (rule abs_diff_bounds)+
qed

text \<open>A value less than half a spacing below a grid point is rounded up to it.\<close>

lemma fl_round_up:
  assumes "of_int m * ulp z - ulp z / 2 < z"
  shows "of_int m * ulp z \<le> fl z"
proof (cases "z = 0")
  case True
  with assms ulp_pos [of z] have "(of_int m - 1 / 2) * ulp z < 0"
    by (simp add: left_diff_distrib)
  then have "(of_int m :: rat) - 1 / 2 < 0" using ulp_pos [of z]
    by (simp add: mult_less_0_iff)
  then have "(of_int m :: rat) < of_int 1" by simp
  then have "m < 1" by (simp only: of_int_less_iff)
  then have "m \<le> 0" by simp
  then have "(of_int m :: rat) \<le> of_int 0" by (simp only: of_int_le_iff)
  then have "of_int m * ulp z \<le> 0 * ulp z" using ulp_pos [of z] by (intro mult_right_mono) simp_all
  with True show ?thesis by (simp add: fl_def)
next
  case False
  let ?v = "z / ulp z"
  have u: "0 < ulp z" by (rule ulp_pos)
  have "(of_int m - 1 / 2) * ulp z < z" using assms by (simp add: left_diff_distrib)
  then have "of_int m - 1 / 2 < ?v" using u by (simp add: pos_less_divide_eq)
  moreover have "?v \<le> of_int (round_half_even ?v) + 1 / 2" by (rule round_half_even_upper)
  ultimately have "(of_int m :: rat) < of_int (round_half_even ?v) + 1" by simp
  then have "(of_int m :: rat) < of_int (round_half_even ?v + 1)" by simp
  then have "m < round_half_even ?v + 1" by (simp only: of_int_less_iff)
  then have "m \<le> round_half_even ?v" by simp
  then have "(of_int m :: rat) \<le> of_int (round_half_even ?v)" by (simp only: of_int_le_iff)
  then have "of_int m * ulp z \<le> of_int (round_half_even ?v) * ulp z"
    using u by (intro mult_right_mono) simp_all
  with False show ?thesis by (simp add: fl_def)
qed

text \<open>An integer of at most 53 bits lies on the grid of every smaller positive value.\<close>

lemma int_on_grid:
  assumes "2 powi (- 1022) \<le> z" "z < of_int n" "n \<le> 2 ^ 53"
  shows "\<exists>m. (of_int n :: rat) = of_int m * ulp z"
proof -
  have "(0::rat) < 2 powi (- 1022)" by (rule zero_less_power_int) simp
  then have z: "0 < z" using assms(1) by (rule less_le_trans)
  have "(of_int n :: rat) \<le> of_int (2 ^ 53)" using assms(3) by (simp only: of_int_le_iff)
  then have "z < 2 powi 53" using assms(2) by simp
  with z have "ilog2 z < 53" by (rule ilog2_less)
  then have k: "ilog2 z \<le> 52" by simp
  have "- 1022 \<le> ilog2 z" using assms(1) by (rule ilog2_ge)
  then have "ulp z = 2 powi (ilog2 z - 52)" using z by (simp add: ulp_def max_def)
  also have "\<dots> = inverse (2 ^ nat (52 - ilog2 z))"
    using k two_powi_neg [of "52 - ilog2 z"] by simp
  finally have "(of_int n :: rat) = of_int (n * 2 ^ nat (52 - ilog2 z)) * ulp z" by simp
  then show ?thesis ..
qed

section \<open>The glyph index\<close>

text \<open>
  For a ramp of at most \<open>2 ^ 53\<close> characters no conversion overflows, and the index is the
  integer part of a product of doubles.
\<close>

lemma luminance_le: "luminance p \<le> 255"
proof -
  have "unat p < 2 ^ LENGTH(8)" by (rule unsigned_less)
  then show ?thesis by (simp add: luminance_def)
qed

lemma ramp_length:
  assumes "1 \<le> n" "n \<le> 2 ^ 53"
  shows "0 \<le> int n - 1" and "int n - 1 \<le> 2 ^ 53"
proof -
  show "0 \<le> int n - 1" using assms(1) by simp
  have "int n \<le> int (2 ^ 53)" using assms(2) by (simp only: of_nat_le_iff)
  then show "int n - 1 \<le> 2 ^ 53" by simp
qed

lemma pixel_range: "(0::rat) \<le> of_nat (luminance p) / 255 \<and> (of_nat (luminance p) :: rat) / 255 \<le> 1"
proof -
  have "luminance p \<le> 255" by (rule luminance_le)
  then have "(of_nat (luminance p) :: rat) \<le> of_nat 255" by (simp only: of_nat_le_iff)
  then show ?thesis by simp
qed

lemma fl_pixel_range:
  "0 \<le> fl (of_nat (luminance p) / 255) \<and> fl (of_nat (luminance p) / 255) \<le> 1"
proof -
  have "fl (of_nat (luminance p) / 255) \<le> of_int 1"
    using pixel_range [of p] by (intro fl_le_of_int) simp_all
  moreover have "0 \<le> fl (of_nat (luminance p) / 255)"
    using pixel_range [of p] by (intro fl_nonneg) simp
  ultimately show ?thesis by simp
qed

lemma char_index_eq:
  assumes "1 \<le> n" "n \<le> 2 ^ 53"
  shows "char_index p n = Inr \<lfloor>fl (fl (of_nat (luminance p) / 255) * of_int (int n - 1))\<rfloor>"
proof -
  let ?m = "int n - 1"
  let ?a = "fl (of_nat (luminance p) / 255)"
  have m: "0 \<le> ?m" "?m \<le> 2 ^ 53" using assms by (rule ramp_length)+
  have a: "0 \<le> ?a" "?a \<le> 1" using fl_pixel_range [of p] by simp_all
  have 1: "py_float_of_int ?m = Inr (Finite (of_int ?m))"
    using to_float_of_int [OF m] by (simp add: py_float_of_int_def)
  have 2: "to_float (of_nat (luminance p) / 255) = Finite ?a"
    using pixel_range [of p] by (intro to_float_small [where k = 1]) simp_all
  have am: "0 \<le> ?a * of_int ?m" "?a * of_int ?m \<le> of_int ?m"
    using a m(1) by (simp_all add: mult_left_le_one_le)
  have 3: "to_float (?a * of_int ?m) = Finite (fl (?a * of_int ?m))"
    using am m(2) by (rule to_float_small)
  have 4: "0 \<le> fl (?a * of_int ?m)" using am(1) by (rule fl_nonneg)
  show ?thesis
    unfolding char_index_def using 1 2 3 4 by simp
qed

lemma char_index_upper:
  assumes "1 \<le> n" "n \<le> 2 ^ 53"
  shows "\<lfloor>fl (fl (of_nat (luminance p) / 255) * of_int (int n - 1))\<rfloor> \<le> int n - 1"
proof -
  let ?m = "int n - 1"
  let ?a = "fl (of_nat (luminance p) / 255)"
  have m: "0 \<le> ?m" "?m \<le> 2 ^ 53" using assms by (rule ramp_length)+
  have a: "0 \<le> ?a" "?a \<le> 1" using fl_pixel_range [of p] by simp_all
  have am: "0 \<le> ?a * of_int ?m" "?a * of_int ?m \<le> of_int ?m"
    using a m(1) by (simp_all add: mult_left_le_one_le)
  have "fl (?a * of_int ?m) \<le> of_int ?m" using am m(2) by (rule fl_le_of_int)
  then have "\<lfloor>fl (?a * of_int ?m)\<rfloor> \<le> \<lfloor>of_int ?m :: rat\<rfloor>" by (rule floor_mono)
  then show ?thesis by (simp only: floor_of_int)
qed

lemma char_index_lower:
  assumes "1 \<le> n"
  shows "0 \<le> \<lfloor>fl (fl (of_nat (luminance p) / 255) * of_int (int n - 1))\<rfloor>"
proof -
  have "0 \<le> fl (of_nat (luminance p) / 255) * of_int (int n - 1)"
    using fl_pixel_range [of p] assms by simp
  then have "0 \<le> fl (fl (of_nat (luminance p) / 255) * of_int (int n - 1))" by (rule fl_nonneg)
  then show ?thesis by simp
qed

lemma char_index_mono:
  assumes "1 \<le> n" "p \<le> q"
  shows "\<lfloor>fl (fl (of_nat (luminance p) / 255) * of_int (int n - 1))\<rfloor>
       \<le> \<lfloor>fl (fl (of_nat (luminance q) / 255) * of_int (int n - 1))\<rfloor>"
proof -
  let ?m = "of_int (int n - 1) :: rat"
  have m: "0 \<le> ?m" using assms(1) by simp
  have "luminance p \<le> luminance q" using assms(2) by (simp add: luminance_def word_le_nat_alt)
  then have "(of_nat (luminance p) :: rat) \<le> of_nat (luminance q)" by (simp only: of_nat_le_iff)
  then have "(of_nat (luminance p) :: rat) / 255 \<le> of_nat (luminance q) / 255"
    by (simp add: divide_right_mono)
  then have "fl (of_nat (luminance p) / 255) \<le> fl (of_nat (luminance q) / 255)"
    using pixel_range [of p] by (intro fl_mono_nonneg) simp_all
  then have "fl (of_nat (luminance p) / 255) * ?m \<le> fl (of_nat (luminance q) / 255) * ?m"
    using m by (rule mult_right_mono)
  moreover have "0 \<le> fl (of_nat (luminance p) / 255) * ?m" using fl_pixel_range [of p] m by simp
  ultimately have "fl (fl (of_nat (luminance p) / 255) * ?m) \<le> fl (fl (of_nat (luminance q) / 255) * ?m)"
    by (intro fl_mono_nonneg)
  then show ?thesis by (rule floor_mono)
qed

lemma char_index_black:
  assumes "1 \<le> n" "n \<le> 2 ^ 53"
  shows "char_index 0 n = Inr 0"
  using char_index_eq [OF assms, of 0] by (simp add: fl_def luminance_def)

lemma char_index_white:
  assumes "1 \<le> n" "n \<le> 2 ^ 53"
  shows "char_index 255 n = Inr (int n - 1)"
proof -
  have m: "0 \<le> int n - 1" "int n - 1 \<le> 2 ^ 53" using assms by (rule ramp_length)+
  have "fl 1 = 1" using fl_of_int [of 1] by simp
  moreover have "fl (of_int (int n - 1)) = of_int (int n - 1)" using m by (rule fl_of_int)
  moreover have "luminance 255 = 255" by (simp add: luminance_def)
  ultimately show ?thesis using char_index_eq [OF assms, of 255] by simp
qed

text \<open>
  Where \<open>L * m / 255\<close> is not an integer it is at least \<open>1 / 255\<close> away from one, far
  more than the two roundings can move it.
\<close>

lemma glyph_exact_generic:
  fixes L :: nat and m :: int
  assumes "L \<le> 255" "1 \<le> m" "m \<le> 127" "(int L * m) mod 255 \<noteq> 0"
  shows "\<lfloor>fl (fl (of_nat L / 255) * of_int m)\<rfloor> = (int L * m) div 255"
proof -
  let ?x = "of_nat L / 255 :: rat"
  let ?t = "of_int (int L * m) / 255 :: rat"
  have L0: "0 < L" using assms(4) by (cases "L = 0") simp_all
  have "(of_nat L :: rat) \<le> of_nat 255" using assms(1) by (simp only: of_nat_le_iff)
  then have x: "0 < ?x" "?x < 2 powi 1" using L0 by simp_all
  have "ulp ?x \<le> 2 powi (1 - 53)" using x by (rule ulp_le_below) simp
  then have ex: "\<bar>fl ?x - ?x\<bar> \<le> 1 / 2 ^ 53"
    using fl_error [of ?x] by (simp add: power_int_minus_divide)
  have m': "(1::rat) \<le> of_int m" "(of_int m :: rat) \<le> 127"
    using assms(2,3) by simp_all
  let ?z = "fl ?x * of_int m"
  have tz: "?t = ?x * of_int m" by simp
  have "?z - ?t = (fl ?x - ?x) * of_int m" unfolding tz by (simp add: left_diff_distrib)
  then have "\<bar>?z - ?t\<bar> = \<bar>fl ?x - ?x\<bar> * \<bar>of_int m :: rat\<bar>"
    by (simp only: abs_mult)
  also have "\<dots> = \<bar>fl ?x - ?x\<bar> * of_int m" using m'(1) by simp
  also have "\<dots> \<le> 1 / 2 ^ 53 * 127"
    using ex m' by (intro mult_mono) simp_all
  finally have "\<bar>?z - ?t\<bar> \<le> 127 / 2 ^ 53" by simp
  then have ez: "?t - 127 / 2 ^ 53 \<le> ?z" "?z \<le> ?t + 127 / 2 ^ 53"
    by (rule abs_diff_bounds)+
  have "(of_nat 1 :: rat) \<le> of_nat L" using L0 by (simp only: of_nat_le_iff)
  then have "(1::rat) / 255 \<le> ?x" by (simp add: divide_right_mono)
  also have "?x = ?x * 1" by simp
  also have "\<dots> \<le> ?x * of_int m" using m'(1) x(1) by (intro mult_left_mono) simp_all
  finally have "(1::rat) / 255 \<le> ?t" unfolding tz .
  then have z0: "0 < ?z" using ez(1) by simp
  have "(of_nat L :: rat) \<le> of_nat 255" using assms(1) by (simp only: of_nat_le_iff)
  then have "?x \<le> 1" by simp
  then have "?x * of_int m \<le> 1 * 127" using m' x(1) by (intro mult_mono) simp_all
  then have "?t \<le> 127" unfolding tz by simp
  then have "?z < 2 powi 7" using ez(2) by simp
  with z0 have "ulp ?z \<le> 2 powi (7 - 53)" by (rule ulp_le_below) simp
  then have "\<bar>fl ?z - ?z\<bar> \<le> 1 / 2 ^ 47"
    using fl_error [of ?z] by (simp add: power_int_minus_divide)
  then have ey: "?z - 1 / 2 ^ 47 \<le> fl ?z" "fl ?z \<le> ?z + 1 / 2 ^ 47"
    by (rule abs_diff_bounds)+
  define N where "N = (int L * m) div 255"
  define r where "r = (int L * m) mod 255"
  have r: "1 \<le> r" "r \<le> 254"
    using assms(4) pos_mod_sign [of 255 "int L * m"] pos_mod_bound [of 255 "int L * m"]
    unfolding r_def by linarith+
  have "int L * m = 255 * N + r" unfolding N_def r_def by simp
  then have "?t = of_int (255 * N + r) / 255" by (simp only:)
  then have t: "?t = of_int N + of_int r / 255" by simp
  have "(of_int 1 :: rat) \<le> of_int r" "(of_int r :: rat) \<le> of_int 254"
    using r by (simp_all only: of_int_le_iff)
  then have r': "(1::rat) \<le> of_int r" "(of_int r :: rat) \<le> 254" by simp_all
  have lo: "of_int N + 1 / 255 \<le> ?t" using r'(1) unfolding t by (simp add: divide_right_mono)
  have hi: "?t \<le> of_int N + 254 / 255" using r'(2) unfolding t by (simp add: divide_right_mono)
  have "of_int N \<le> fl ?z" using lo ez(1) ey(1) by simp
  moreover have "fl ?z < of_int N + 1" using hi ez(2) ey(2) by simp
  ultimately have "\<lfloor>fl ?z\<rfloor> = N" by (rule floor_unique)
  then show ?thesis unfolding N_def .
qed

text \<open>
  For the two ramps of the player, of 10 and of 70 characters, \<open>L * (n - 1) / 255\<close> is an
  integer for four values of \<open>L\<close> only, and there the doubles are computed.
\<close>

lemma multiples_of_85:
  assumes "(int L * m) mod 255 = 0" "coprime 85 m" "L \<le> 255"
  shows "L = 0 \<or> L = 85 \<or> L = 170 \<or> L = 255"
proof -
  have "255 dvd int L * m" using assms(1) by (simp add: dvd_eq_mod_eq_0)
  moreover have "(85::int) dvd 255" by simp
  ultimately have "85 dvd int L * m" by (rule dvd_trans [rotated])
  then have "85 dvd int L" using assms(2) by (simp add: coprime_dvd_mult_left_iff)
  then obtain k where k: "int L = 85 * k" ..
  have "int L \<le> 255" using assms(3) by simp
  then have "0 \<le> k" "k \<le> 3" using k by simp_all
  then have "k = 0 \<or> k = 1 \<or> k = 2 \<or> k = 3" by arith
  then show ?thesis using k by auto
qed

lemma spec_glyph_index_eq:
  assumes "1 \<le> n"
  shows "spec_glyph_index p n = (int (luminance p) * (int n - 1)) div 255"
proof -
  let ?L = "int (luminance p)" and ?m = "int n - 1"
  have m: "0 \<le> ?m" using assms by simp
  have L: "0 \<le> ?L" "?L \<le> 255" using luminance_le [of p] by simp_all
  have "(of_nat (luminance p) / 255 * (of_nat n - 1) :: rat) = of_int (?L * ?m) / of_int 255"
    by simp
  then have f: "\<lfloor>of_nat (luminance p) / 255 * (of_nat n - 1) :: rat\<rfloor> = (?L * ?m) div 255"
    by (simp only: floor_divide_of_int_eq)
  have "0 \<le> ?L * ?m" using L(1) m by simp
  then have lo: "0 \<le> (?L * ?m) div 255" by (simp add: pos_imp_zdiv_nonneg_iff)
  have "?L * ?m \<le> 255 * ?m" using L(2) m by (rule mult_right_mono)
  then have "(?L * ?m) div 255 \<le> (255 * ?m) div 255" by (rule zdiv_mono1) simp
  then have hi: "(?L * ?m) div 255 \<le> ?m" by simp
  show ?thesis unfolding spec_glyph_index_def f using lo hi by simp
qed

lemma glyph_exact_ramps:
  assumes "n = 10 \<or> n = 70"
  shows "char_index p n = Inr (spec_glyph_index p n)"
proof -
  let ?L = "luminance p" and ?m = "int n - 1"
  have n: "1 \<le> n" "n \<le> 2 ^ 53" using assms by auto
  have m: "?m = 9 \<or> ?m = 69" using assms by auto
  have "coprime (85::int) 9" "coprime (85::int) 69" by code_simp+
  with m have m': "1 \<le> ?m" "?m \<le> 127" "coprime 85 ?m" by auto
  have "\<lfloor>fl (fl (of_nat ?L / 255) * of_int ?m)\<rfloor> = (int ?L * ?m) div 255"
  proof (cases "(int ?L * ?m) mod 255 = 0")
    case False
    with luminance_le [of p] m'(1,2) show ?thesis by (rule glyph_exact_generic)
  next
    case True
    then have "?L = 0 \<or> ?L = 85 \<or> ?L = 170 \<or> ?L = 255"
      using m'(3) luminance_le [of p] by (rule multiples_of_85)
    moreover have "\<lfloor>fl (fl (0 / 255) * 9)\<rfloor> = 0" "\<lfloor>fl (fl (0 / 255) * 69)\<rfloor> = 0"
      "\<lfloor>fl (fl (85 / 255) * 9)\<rfloor> = 3" "\<lfloor>fl (fl (85 / 255) * 69)\<rfloor> = 23"
      "\<lfloor>fl (fl (170 / 255) * 9)\<rfloor> = 6" "\<lfloor>fl (fl (170 / 255) * 69)\<rfloor> = 46"
      "\<lfloor>fl (fl (255 / 255) * 9)\<rfloor> = 9" "\<lfloor>fl (fl (255 / 255) * 69)\<rfloor> = 69"
      by (simp_all add: number_eval)
    ultimately show ?thesis using m by auto
  qed
  then show ?thesis
    using char_index_eq [OF n, of p] spec_glyph_index_eq [OF n(1), of p] by simp
qed

text \<open>
  For any ramp the two roundings move the product by less than \<open>1 / 255\<close>, so the index is
  the floor of the exact quotient or, where the product falls short of an integer, one
  less.
\<close>

lemma glyph_near_generic:
  fixes L :: nat and m :: int
  assumes "L \<le> 255" "1 \<le> m" "m \<le> 2 ^ 40"
  shows "(int L * m) div 255 - 1 \<le> \<lfloor>fl (fl (of_nat L / 255) * of_int m)\<rfloor>
       \<and> \<lfloor>fl (fl (of_nat L / 255) * of_int m)\<rfloor> \<le> (int L * m) div 255"
proof (cases "L = 0")
  case True
  then show ?thesis by (simp add: fl_def)
next
  case False
  let ?x = "of_nat L / 255 :: rat"
  let ?t = "of_int (int L * m) / 255 :: rat"
  have L0: "0 < L" using False by simp
  have "(of_nat L :: rat) \<le> of_nat 255" using assms(1) by (simp only: of_nat_le_iff)
  then have x: "0 < ?x" "?x < 2 powi 1" using L0 by simp_all
  have "ulp ?x \<le> 2 powi (1 - 53)" using x by (rule ulp_le_below) simp
  then have ex: "\<bar>fl ?x - ?x\<bar> \<le> 1 / 2 ^ 53"
    using fl_error [of ?x] by (simp add: power_int_minus_divide)
  have "(of_int m :: rat) \<le> of_int (2 ^ 40)" using assms(3) by (simp only: of_int_le_iff)
  then have m': "(1::rat) \<le> of_int m" "(of_int m :: rat) \<le> 2 ^ 40"
    using assms(2) by simp_all
  let ?z = "fl ?x * of_int m"
  have tz: "?t = ?x * of_int m" by simp
  have "?z - ?t = (fl ?x - ?x) * of_int m" unfolding tz by (simp add: left_diff_distrib)
  then have "\<bar>?z - ?t\<bar> = \<bar>fl ?x - ?x\<bar> * \<bar>of_int m :: rat\<bar>"
    by (simp only: abs_mult)
  also have "\<dots> = \<bar>fl ?x - ?x\<bar> * of_int m" using m'(1) by simp
  also have "\<dots> \<le> 1 / 2 ^ 53 * 2 ^ 40"
    using ex m' by (intro mult_mono) simp_all
  finally have "\<bar>?z - ?t\<bar> \<le> 1 / 2 ^ 13" by simp
  then have ez: "?t - 1 / 2 ^ 13 \<le> ?z" "?z \<le> ?t + 1 / 2 ^ 13"
    by (rule abs_diff_bounds)+
  have "(of_nat 1 :: rat) \<le> of_nat L" using L0 by (simp only: of_nat_le_iff)
  then have "(1::rat) / 255 \<le> ?x" by (simp add: divide_right_mono)
  also have "?x = ?x * 1" by simp
  also have "\<dots> \<le> ?x * of_int m" using m'(1) x(1) by (intro mult_left_mono) simp_all
  finally have "(1::rat) / 255 \<le> ?t" unfolding tz .
  then have z0: "0 < ?z" using ez(1) by simp
  have "(of_nat L :: rat) \<le> of_nat 255" using assms(1) by (simp only: of_nat_le_iff)
  then have "?x \<le> 1" by simp
  then have "?x * of_int m \<le> 1 * 2 ^ 40" using m' x(1) by (intro mult_mono) simp_all
  then have "?t \<le> 2 ^ 40" unfolding tz by simp
  then have "?z < 2 powi 41" using ez(2) by simp
  with z0 have "ulp ?z \<le> 2 powi (41 - 53)" by (rule ulp_le_below) simp
  then have "\<bar>fl ?z - ?z\<bar> \<le> 1 / 2 ^ 13"
    using fl_error [of ?z] by (simp add: power_int_minus_divide)
  then have ey: "?z - 1 / 2 ^ 13 \<le> fl ?z" "fl ?z \<le> ?z + 1 / 2 ^ 13"
    by (rule abs_diff_bounds)+
  define N where "N = (int L * m) div 255"
  define r where "r = (int L * m) mod 255"
  have r: "0 \<le> r" "r \<le> 254"
    using pos_mod_sign [of 255 "int L * m"] pos_mod_bound [of 255 "int L * m"]
    unfolding r_def by linarith+
  have "int L * m = 255 * N + r" unfolding N_def r_def by simp
  then have "?t = of_int (255 * N + r) / 255" by (simp only:)
  then have t: "?t = of_int N + of_int r / 255" by simp
  have "(of_int 0 :: rat) \<le> of_int r" "(of_int r :: rat) \<le> of_int 254"
    using r by (simp_all only: of_int_le_iff)
  then have r': "(0::rat) \<le> of_int r" "(of_int r :: rat) \<le> 254" by simp_all
  have lo: "of_int N \<le> ?t" using r'(1) unfolding t by simp
  have hi: "?t \<le> of_int N + 254 / 255" using r'(2) unfolding t by (simp add: divide_right_mono)
  have "of_int N - 1 \<le> fl ?z" using lo ez(1) ey(1) by simp
  then have "of_int (N - 1) \<le> fl ?z" by simp
  then have a: "N - 1 \<le> \<lfloor>fl ?z\<rfloor>" by (simp only: le_floor_iff)
  have "fl ?z < of_int N + 1" using hi ez(2) ey(2) by simp
  then have "fl ?z < of_int (N + 1)" by simp
  then have "\<lfloor>fl ?z\<rfloor> < N + 1" by (simp only: floor_less_iff)
  with a show ?thesis unfolding N_def by simp
qed

lemma glyph_near_floor:
  assumes "2 \<le> n" "n \<le> 2 ^ 40"
  shows "spec_glyph_index p n - 1 \<le> \<lfloor>fl (fl (of_nat (luminance p) / 255) * of_int (int n - 1))\<rfloor>
       \<and> \<lfloor>fl (fl (of_nat (luminance p) / 255) * of_int (int n - 1))\<rfloor> \<le> spec_glyph_index p n"
proof -
  have "int n \<le> int (2 ^ 40)" using assms(2) by (simp only: of_nat_le_iff)
  then have m: "1 \<le> int n - 1" "int n - 1 \<le> 2 ^ 40" using assms(1) by simp_all
  have "1 \<le> n" using assms(1) by simp
  then have "spec_glyph_index p n = (int (luminance p) * (int n - 1)) div 255"
    by (rule spec_glyph_index_eq)
  with glyph_near_generic [OF luminance_le [of p] m] show ?thesis by simp
qed
lemma ramp_lengths: "length ASCII_CHARS = 10" "length DETAILED_CHARS = 70"
  by (simp_all add: ASCII_CHARS_def DETAILED_CHARS_def)

text \<open>
  C4, as the code has it. For every pixel value and every ramp of \<open>n \<ge> 2\<close> characters (up
  to \<open>2 ^ 53\<close>, beyond any string) the glyph index is defined and lies in \<open>[0, n - 1]\<close>, so
  that no clamp is needed; it is monotone in the pixel value, 0 for black and exactly
  \<open>n - 1\<close> for white. For the two ramps of the player, of 10 and of 70 characters, it is
  \<open>floor(L / 255 * (n - 1))\<close>. For other lengths (up to \<open>2 ^ 40\<close>) it is that floor or one
  less: the quotient and the product are rounded to doubles before the integer part is
  taken.
\<close>

theorem glyph_index_ramp:
  assumes "2 \<le> n" "n \<le> 2 ^ 53"
  shows "\<exists>i j. char_index p n = Inr i \<and> char_index q n = Inr j
     \<and> 0 \<le> i \<and> i \<le> int n - 1
     \<and> (p \<le> q \<longrightarrow> i \<le> j)
     \<and> char_index 0 n = Inr 0
     \<and> char_index 255 n = Inr (int n - 1)
     \<and> (n = length ASCII_CHARS \<or> n = length DETAILED_CHARS \<longrightarrow> i = spec_glyph_index p n)
     \<and> (n \<le> 2 ^ 40 \<longrightarrow> spec_glyph_index p n - 1 \<le> i \<and> i \<le> spec_glyph_index p n)"
proof -
  have n: "1 \<le> n" "n \<le> 2 ^ 53" using assms by simp_all
  let ?i = "\<lfloor>fl (fl (of_nat (luminance p) / 255) * of_int (int n - 1))\<rfloor>"
  let ?j = "\<lfloor>fl (fl (of_nat (luminance q) / 255) * of_int (int n - 1))\<rfloor>"
  have ip: "char_index p n = Inr ?i" using n by (rule char_index_eq)
  have iq: "char_index q n = Inr ?j" using n by (rule char_index_eq)
  have lo: "0 \<le> ?i" using n(1) by (rule char_index_lower)
  have hi: "?i \<le> int n - 1" using n by (rule char_index_upper)
  have mo: "p \<le> q \<longrightarrow> ?i \<le> ?j"
  proof
    assume "p \<le> q"
    with n(1) show "?i \<le> ?j" by (rule char_index_mono)
  qed
  have bl: "char_index 0 n = Inr 0" using n by (rule char_index_black)
  have wh: "char_index 255 n = Inr (int n - 1)" using n by (rule char_index_white)
  have ex: "n = length ASCII_CHARS \<or> n = length DETAILED_CHARS \<longrightarrow> ?i = spec_glyph_index p n"
  proof
    assume "n = length ASCII_CHARS \<or> n = length DETAILED_CHARS"
    then have "n = 10 \<or> n = 70" by (simp add: ramp_lengths)
    then have "char_index p n = Inr (spec_glyph_index p n)" by (rule glyph_exact_ramps)
    with ip show "?i = spec_glyph_index p n" by simp
  qed
  have nr: "n \<le> 2 ^ 40 \<longrightarrow> spec_glyph_index p n - 1 \<le> ?i \<and> ?i \<le> spec_glyph_index p n"
  proof
    assume "n \<le> 2 ^ 40"
    with assms(1) show "spec_glyph_index p n - 1 \<le> ?i \<and> ?i \<le> spec_glyph_index p n"
      by (rule glyph_near_floor)
  qed
  from ip iq lo hi mo bl wh ex nr show ?thesis by blast
qed

theorem glyph_index_ramp_witness:
  "(2::nat) \<le> 10 \<and> (10::nat) \<le> 2 ^ 53
   \<and> char_index 100 10 = Inr 3 \<and> char_index 200 10 = Inr 7
   \<and> char_index 0 10 = Inr 0 \<and> char_index 255 10 = Inr 9
   \<and> spec_glyph_index 100 10 = 3"
proof -
  have h: "(2::nat) \<le> 10" "(10::nat) \<le> 2 ^ 53" by simp_all
  from glyph_index_ramp [OF h, of 100 200] obtain i j where
    *: "char_index 100 10 = Inr i" "char_index 200 10 = Inr j" "char_index 0 10 = Inr 0"
      "char_index 255 10 = Inr (int 10 - 1)"
      "10 = length ASCII_CHARS \<or> 10 = length DETAILED_CHARS \<longrightarrow> i = spec_glyph_index 100 10"
    by blast
  have e: "char_index 100 10 = Inr 3" "char_index 200 10 = Inr 7"
    by (simp_all add: char_index_def luminance_def number_eval)
  from * e have "spec_glyph_index 100 10 = 3"
    by (simp_all add: ramp_lengths)
  with * e h show ?thesis by simp
qed

text \<open>
  C4, as the specification words it, fails for other ramp lengths: with 52 characters
  the pixel value 155 gives \<open>155 / 255 * 51 = 31\<close> exactly, while the rounded quotient
  times 51 is the double \<open>30.999999999999996\<close>, which \<open>int\<close> turns into 30.
\<close>

theorem glyph_index_below_floor:
  "char_index 155 52 = Inr 30 \<and> spec_glyph_index 155 52 = 31"
  by (simp add: char_index_def spec_glyph_index_def luminance_def number_eval)

lemma below_next_binade:
  assumes "0 < z"
  shows "z < of_int (2 ^ 53) * ulp z"
proof -
  have "z < 2 powi (ilog2 z + 1)" using assms by (rule ilog2_bounds)
  also have "\<dots> \<le> 2 powi (max (ilog2 \<bar>z\<bar>) (- 1022) + 1)"
    using assms by (intro power_int_increasing) simp_all
  finally show ?thesis by (simp only: pow_next_binade)
qed

text \<open>
  The two roundings of \<open>a / b * 0.55\<close> never carry the product across an integer, for
  operands of the size of any video: the exact product is a multiple of \<open>1 / (20 * b)\<close>,
  the roundings move it by far less, and the double \<open>0.55\<close> lies above \<open>11 / 20\<close>.
\<close>

lemma height_value_exact:
  fixes a b :: int
  assumes "1 \<le> a" "a \<le> 2 ^ 47" "0 < b" "b \<le> 2 ^ 53"
  shows "\<lfloor>fl (fl (of_int a / of_int b) * (2476979795053773 / 4503599627370496))\<rfloor>
       = \<lfloor>of_int a / of_int b * (55 / 100) :: rat\<rfloor>"
proof -
  define q0 where "q0 = (of_int a / of_int b :: rat)"
  define x where "x = fl q0"
  define z where "z = x * (2476979795053773 / 4503599627370496)"
  define y where "y = fl z"
  define q where "q = q0 * (55 / 100)"
  define g where "g = 1 / (20 * of_int b :: rat)"
  define N where "N = \<lfloor>q\<rfloor>"
  have b: "(0::rat) < of_int b" "(of_int b :: rat) \<le> 2 ^ 53" "(1::rat) \<le> of_int b"
  proof -
    show "(0::rat) < of_int b" using assms(3) by simp
    have "(of_int b :: rat) \<le> of_int (2 ^ 53)" using assms(4) by (simp only: of_int_le_iff)
    then show "(of_int b :: rat) \<le> 2 ^ 53" by simp
    have "1 \<le> b" using assms(3) by simp
    then have "(of_int 1 :: rat) \<le> of_int b" by (simp only: of_int_le_iff)
    then show "(1::rat) \<le> of_int b" by simp
  qed
  have a: "(1::rat) \<le> of_int a" "(of_int a :: rat) \<le> 2 ^ 47"
  proof -
    have "(of_int 1 :: rat) \<le> of_int a" using assms(1) by (simp only: of_int_le_iff)
    then show "(1::rat) \<le> of_int a" by simp
    have "(of_int a :: rat) \<le> of_int (2 ^ 47)" using assms(2) by (simp only: of_int_le_iff)
    then show "(of_int a :: rat) \<le> 2 ^ 47" by simp
  qed
  have g: "0 < g" unfolding g_def using b(1) by simp
  have "1 / of_int b \<le> q0" unfolding q0_def using a(1) b(1) by (intro divide_right_mono) simp_all
  moreover have "(1::rat) / 2 ^ 53 \<le> 1 / of_int b" using b(1,2) by (rule one_over_mono)
  ultimately have q0_lo: "1 / 2 ^ 53 \<le> q0" by simp
  then have q0_pos: "0 < q0" by (rule less_le_trans [rotated]) simp
  have "of_int a / of_int b \<le> (of_int a :: rat) / 1"
    using a(1) b(3) by (intro divide_left_mono) simp_all
  then have q0_hi: "q0 \<le> 2 ^ 47" unfolding q0_def using a(2) by simp
  have "(2::rat) powi (- 1022) \<le> 2 powi (- 53)" by (rule power_int_increasing) simp_all
  also have "\<dots> = 1 / 2 ^ 53" by (simp add: power_int_minus_divide)
  finally have "2 powi (- 1022) \<le> q0" using q0_lo by simp
  from fl_relative_error [OF this]
  have xb: "q0 - q0 / 2 ^ 53 \<le> x" "x \<le> q0 + q0 / 2 ^ 53" unfolding x_def .
  have "1 / 2 ^ 55 \<le> z" using xb(1) q0_lo unfolding z_def by simp
  moreover have "(2::rat) powi (- 1022) \<le> 2 powi (- 55)" by (rule power_int_increasing) simp_all
  moreover have "(2::rat) powi (- 55) = 1 / 2 ^ 55" by (simp add: power_int_minus_divide)
  ultimately have nz: "2 powi (- 1022) \<le> z" by simp
  from fl_relative_error [OF nz]
  have yb: "z - z / 2 ^ 53 \<le> y" "y \<le> z + z / 2 ^ 53" unfolding y_def .
  have q_eq: "q = of_int (11 * a) * g" unfolding q_def q0_def g_def using b(1) by simp
  have "of_int a * g \<le> 2 ^ 47 * g" using a(2) g by (intro mult_right_mono) simp_all
  then have e3: "q * (3 / 2 ^ 53) \<le> 33 / 64 * g" unfolding q_eq
    by (simp add: mult.commute [of g])
  have N: "of_int N \<le> q" "q < of_int N + 1" unfolding N_def by linarith+
  have q_div: "q = of_int (11 * a) / of_int (20 * b)" unfolding q_def q0_def by simp
  have D: "(0::rat) < of_int (20 * b)" using assms(3) by simp
  have gap_hi: "q \<le> of_int N + 1 - g"
  proof -
    have "of_int (11 * a) / of_int (20 * b) < (of_int (N + 1) :: rat)"
      using N(2) unfolding q_div by simp
    then have "(of_int (11 * a) :: rat) < of_int (N + 1) * of_int (20 * b)"
      using D by (simp only: pos_divide_less_eq)
    then have "(of_int (11 * a) :: rat) < of_int ((N + 1) * (20 * b))" by (simp only: of_int_mult)
    then have "11 * a < (N + 1) * (20 * b)" by (simp only: of_int_less_iff)
    then have "11 * a + 1 \<le> (N + 1) * (20 * b)" by linarith
    then have "(of_int (11 * a + 1) :: rat) \<le> of_int ((N + 1) * (20 * b))"
      by (simp only: of_int_le_iff)
    then have "(of_int (11 * a + 1) :: rat) \<le> of_int (N + 1) * of_int (20 * b)"
      by (simp only: of_int_mult)
    then have "(of_int (11 * a + 1) :: rat) / of_int (20 * b) \<le> of_int (N + 1)"
      using D by (simp only: pos_divide_le_eq)
    moreover have "(of_int (11 * a + 1) :: rat) / of_int (20 * b) = q + g"
      unfolding q_div g_def by (simp add: add_divide_distrib)
    ultimately show ?thesis by simp
  qed
  have gap_lo: "of_int N + g \<le> q" if "of_int N < q"
  proof -
    have "(of_int N :: rat) < of_int (11 * a) / of_int (20 * b)" using that unfolding q_div .
    then have "(of_int N :: rat) * of_int (20 * b) < of_int (11 * a)"
      using D by (simp only: pos_less_divide_eq)
    then have "(of_int (N * (20 * b)) :: rat) < of_int (11 * a)" by (simp only: of_int_mult)
    then have "N * (20 * b) < 11 * a" by (simp only: of_int_less_iff)
    then have "N * (20 * b) \<le> 11 * a - 1" by linarith
    then have "(of_int (N * (20 * b)) :: rat) \<le> of_int (11 * a - 1)"
      by (simp only: of_int_le_iff)
    then have "(of_int N :: rat) * of_int (20 * b) \<le> of_int (11 * a - 1)"
      by (simp only: of_int_mult)
    then have "(of_int N :: rat) \<le> of_int (11 * a - 1) / of_int (20 * b)"
      using D by (simp only: pos_le_divide_eq)
    moreover have "(of_int (11 * a - 1) :: rat) / of_int (20 * b) = q - g"
      unfolding q_div g_def by (simp add: diff_divide_distrib)
    ultimately show ?thesis by simp
  qed
  have y_hi: "y \<le> q + q * (3 / 2 ^ 53)"
    using yb(2) xb(2) q0_pos unfolding z_def q_def by simp
  have y_lo: "q - q * (2 / 2 ^ 53) \<le> y"
    using yb(1) xb(1) q0_pos unfolding z_def q_def by simp
  have upper: "y < of_int N + 1" using y_hi e3 gap_hi g by simp
  have lower: "of_int N \<le> y"
  proof (cases "of_int N < q")
    case True
    from gap_lo [OF True] y_lo e3 g show ?thesis by simp
  next
    case False
    with N(1) have qN: "q = of_int N" by simp
    have z_lo: "of_int N - of_int N / (3 * 2 ^ 53) \<le> z"
      using xb(1) q0_pos qN [symmetric] unfolding z_def q_def by simp
    have N0: "(0::rat) \<le> of_int N" using qN q0_pos unfolding q_def by simp
    have "(of_int N :: rat) \<le> 2 ^ 47" using qN q0_hi q0_pos unfolding q_def by simp
    then have "(of_int N :: rat) \<le> of_int (2 ^ 53)" by simp
    then have N53: "N \<le> 2 ^ 53" by (simp only: of_int_le_iff)
    have N0': "0 \<le> N" using N0 by simp
    show ?thesis
    proof (cases "of_int N \<le> z")
      case True
      with N0 have "fl (of_int N) \<le> fl z" by (rule fl_mono_nonneg)
      then show ?thesis using fl_of_int [OF N0' N53] unfolding y_def by simp
    next
      case False
      then have zN: "z < of_int N" by simp
      from int_on_grid [OF nz zN N53] obtain m where m: "(of_int N :: rat) = of_int m * ulp z" ..
      have "0 < z" using nz zero_less_power_int [of "2::rat" "- 1022"] by simp
      then have "z < of_int (2 ^ 53) * ulp z" by (rule below_next_binade)
      then have "z < 2 ^ 53 * ulp z" by simp
      with z_lo N0 have "of_int N - ulp z / 2 < z" by simp
      then have "of_int m * ulp z - ulp z / 2 < z" unfolding m .
      then have "of_int m * ulp z \<le> fl z" by (rule fl_round_up)
      then show ?thesis unfolding y_def m .
    qed
  qed
  from lower upper have "\<lfloor>y\<rfloor> = N" by (rule floor_unique)
  then show ?thesis unfolding y_def z_def x_def N_def q_def q0_def .
qed

lemma compute_height_eq:
  assumes "0 \<le> w" "0 \<le> oh" "0 < ow" "w * oh \<le> 2 ^ 47" "ow \<le> 2 ^ 53"
  shows "compute_height w oh ow = Inr (exact_height w oh ow)"
proof -
  define a where "a = w * oh"
  let ?q0 = "of_int a / of_int ow :: rat"
  let ?C = "2476979795053773 / 4503599627370496 :: rat"
  have a0: "0 \<le> a" using assms(1,2) by (simp add: a_def)
  have a47: "a \<le> 2 ^ 47" using assms(4) by (simp add: a_def)
  then have a53: "a \<le> 2 ^ 53" by simp
  have a0': "(0::rat) \<le> of_int a" using a0 by simp
  have "(1::rat) \<le> of_int ow" using assms(3) by simp
  then have "of_int a / of_int ow \<le> (of_int a :: rat) / 1"
    using a0' by (intro divide_left_mono) simp_all
  then have q0: "0 \<le> ?q0" "?q0 \<le> of_int a" using a0' assms(3) by simp_all
  have 1: "to_float ?q0 = Finite (fl ?q0)" using q0 a53 by (rule to_float_small)
  have x: "0 \<le> fl ?q0" "fl ?q0 \<le> of_int a"
  proof -
    show "0 \<le> fl ?q0" using q0(1) by (rule fl_nonneg)
    show "fl ?q0 \<le> of_int a" using q0 a53 by (rule fl_le_of_int)
  qed
  have c: "to_float (55 / 100) = Finite ?C" by (simp add: number_eval)
  have "fl ?q0 * ?C \<le> fl ?q0 * 1" using x(1) by (intro mult_left_mono) simp_all
  then have xc: "0 \<le> fl ?q0 * ?C" "fl ?q0 * ?C \<le> of_int a" using x by simp_all
  have 2: "to_float (fl ?q0 * ?C) = Finite (fl (fl ?q0 * ?C))" using xc a53 by (rule to_float_small)
  have 3: "0 \<le> fl (fl ?q0 * ?C)" using xc(1) by (rule fl_nonneg)
  have "compute_height w oh ow = Inr \<lfloor>fl (fl ?q0 * ?C)\<rfloor>"
    unfolding compute_height_def py_int_truediv_def a_def [symmetric]
    using assms(3) 1 2 3 c by simp
  also have "\<lfloor>fl (fl ?q0 * ?C)\<rfloor> = \<lfloor>?q0 * (55 / 100)\<rfloor>"
  proof (cases "a = 0")
    case True
    then show ?thesis by (simp add: fl_def)
  next
    case False
    with a0 have "1 \<le> a" by linarith
    then show ?thesis using a47 assms(3,5) by (rule height_value_exact)
  qed
  also have "\<dots> = exact_height w oh ow" by (simp add: exact_height_def a_def)
  finally show ?thesis .
qed

lemma floor_le_round: "\<lfloor>x :: rat\<rfloor> \<le> round x" "round x \<le> \<lfloor>x :: rat\<rfloor> + 1"
  unfolding round_def by linarith+

text \<open>
  C2, as the code has it. \<open>int(...)\<close> truncates: for a width and a source height that are
  not negative and a positive source width (with \<open>width * height \<le> 2 ^ 47\<close> and a source
  width of at most \<open>2 ^ 53\<close>, beyond any video), the height is the integer part of
  \<open>width * source_height / source_width * 0.55\<close>, which is the rounded value of the
  specification or one less. For a width of 120 and a source of 1920 by 1080 it is 37.
\<close>

theorem height_truncates:
  assumes "0 \<le> w" "0 \<le> oh" "0 < ow" "w * oh \<le> 2 ^ 47" "ow \<le> 2 ^ 53"
  shows "compute_height w oh ow = Inr (exact_height w oh ow)
    \<and> exact_height w oh ow \<le> spec_height w oh ow
    \<and> spec_height w oh ow \<le> exact_height w oh ow + 1
    \<and> compute_height 120 1080 1920 = Inr 37"
proof -
  have "compute_height w oh ow = Inr (exact_height w oh ow)" using assms by (rule compute_height_eq)
  moreover have "exact_height w oh ow \<le> spec_height w oh ow"
    unfolding exact_height_def spec_height_def by (rule floor_le_round)
  moreover have "spec_height w oh ow \<le> exact_height w oh ow + 1"
    unfolding exact_height_def spec_height_def by (rule floor_le_round)
  moreover have "compute_height 120 1080 1920 = Inr 37"
    by (simp add: compute_height_def number_eval)
  ultimately show ?thesis by blast
qed

theorem height_truncates_witness:
  "(0::int) \<le> 120 \<and> (0::int) \<le> 1080 \<and> (0::int) < 1920
   \<and> (120::int) * 1080 \<le> 2 ^ 47 \<and> (1920::int) \<le> 2 ^ 53
   \<and> compute_height 120 1080 1920 = Inr 37
   \<and> exact_height 120 1080 1920 = 37
   \<and> spec_height 120 1080 1920 = 37"
proof -
  have h: "(0::int) \<le> 120" "(0::int) \<le> 1080" "(0::int) < 1920"
    "(120::int) * 1080 \<le> 2 ^ 47" "(1920::int) \<le> 2 ^ 53"
    by simp_all
  have e: "exact_height 120 1080 1920 = 37" "spec_height 120 1080 1920 = 37"
    by (simp_all add: exact_height_def spec_height_def round_def number_eval)
  from height_truncates [OF h] e h show ?thesis by simp
qed

text \<open>
  C2, as the specification words it, fails wherever the fraction is a half or more: for a
  width of 100 and a source of 1920 by 1080 the product is \<open>30.9375\<close>, rounded to 31 by
  the specification and truncated to 30 by the code.
\<close>

theorem height_not_rounded:
  "compute_height 100 1080 1920 = Inr 30 \<and> spec_height 100 1080 1920 = 31"
  by (simp add: compute_height_def spec_height_def round_def number_eval)

section \<open>The frame delay\<close>

lemma frame_delay_accurate:
  assumes "2 powi (- 1022) \<le> r" "r \<le> 2 powi 1022"
  shows "\<exists>d. frame_delay (Finite r) = Inr (Finite d) \<and> \<bar>d - 1 / r\<bar> \<le> 1 / r / 2 ^ 53"
proof -
  let ?x = "1 / r"
  have "(0::rat) < 2 powi (- 1022)" by (rule zero_less_power_int) simp
  then have r: "0 < r" using assms(1) by (rule less_le_trans)
  have "1 / (2 powi 1022) \<le> ?x" using r assms(2) by (rule one_over_mono)
  then have lo: "2 powi (- 1022) \<le> ?x" by (simp only: power_int_minus_divide)
  have "?x \<le> 1 / (2 powi (- 1022))"
    using \<open>(0::rat) < 2 powi (- 1022)\<close> assms(1) by (rule one_over_mono)
  also have "\<dots> = 2 powi 1022"
    using power_int_minus_divide [of "2::rat" "- 1022"] by simp
  finally have hi: "?x \<le> 2 powi 1022" .
  have x: "0 < ?x" using r by simp
  have "\<bar>fl ?x - ?x\<bar> \<le> ulp ?x / 2" by (rule fl_error)
  also have "\<dots> \<le> ?x / 2 ^ 52 / 2" using ulp_normal [OF lo] by simp
  finally have e: "\<bar>fl ?x - ?x\<bar> \<le> ?x / 2 ^ 53" by simp
  then have b: "?x - ?x / 2 ^ 53 \<le> fl ?x" "fl ?x \<le> ?x + ?x / 2 ^ 53"
    by (rule abs_diff_bounds)+
  have "?x / 2 ^ 53 \<le> ?x" using x by (simp add: field_simps)
  with b(2) have "fl ?x \<le> 2 * ?x" by simp
  also have "\<dots> \<le> 2 * 2 powi 1022" using hi by simp
  also have "\<dots> < 2 ^ 1024" by simp
  finally have "fl ?x < 2 ^ 1024" .
  moreover have "0 \<le> fl ?x" using x by (intro fl_nonneg) simp
  ultimately have "to_float ?x = Finite (fl ?x)" by (intro to_float_Finite) simp
  then have "frame_delay (Finite r) = Inr (Finite (fl ?x))"
    using r by (simp add: frame_delay_def py_float_truediv_def)
  with e show ?thesis by blast
qed

text \<open>
  C8. The delay is the quotient \<open>1.0 / fps\<close> when the frame rate is positive (for a
  frame rate in the normal range of the doubles this is \<open>1 / fps\<close> up to one rounding)
  and the double \<open>0.033\<close> otherwise; it is never an exception, and for a frame rate of
  zero it is that finite fallback.
\<close>

theorem frame_delay_guarded:
  "(float_gt0 f \<longrightarrow> frame_delay f = Inr (float_div (Finite 1) f))
   \<and> (\<not> float_gt0 f \<longrightarrow> frame_delay f = Inr (Finite (1188950301625811 / 36028797018963968)))
   \<and> (\<exists>d. frame_delay f = Inr d)
   \<and> frame_delay (Finite 0) = Inr (Finite (1188950301625811 / 36028797018963968))
   \<and> \<bar>1188950301625811 / 36028797018963968 - 33 / 1000 :: rat\<bar> < 1 / 10 ^ 17
   \<and> (2 powi (- 1022) \<le> r \<and> r \<le> 2 powi 1022 \<longrightarrow>
        (\<exists>d. frame_delay (Finite r) = Inr (Finite d) \<and> \<bar>d - 1 / r\<bar> \<le> 1 / r / 2 ^ 53))"
proof -
  have c: "to_float (33 / 1000) = Finite (1188950301625811 / 36028797018963968)"
    by (simp add: number_eval)
  have 1: "float_gt0 f \<longrightarrow> frame_delay f = Inr (float_div (Finite 1) f)"
    by (cases f) (auto simp: frame_delay_def py_float_truediv_def)
  have 2: "\<not> float_gt0 f \<longrightarrow> frame_delay f = Inr (Finite (1188950301625811 / 36028797018963968))"
    by (simp add: frame_delay_def c)
  have 3: "\<exists>d. frame_delay f = Inr d" using 1 2 by (cases "float_gt0 f") simp_all
  have 4: "frame_delay (Finite 0) = Inr (Finite (1188950301625811 / 36028797018963968))"
    by (simp add: frame_delay_def c)
  have 5: "\<bar>1188950301625811 / 36028797018963968 - 33 / 1000 :: rat\<bar> < 1 / 10 ^ 17"
    by simp
  have 6: "2 powi (- 1022) \<le> r \<and> r \<le> 2 powi 1022 \<longrightarrow>
        (\<exists>d. frame_delay (Finite r) = Inr (Finite d) \<and> \<bar>d - 1 / r\<bar> \<le> 1 / r / 2 ^ 53)"
  proof
    assume a: "2 powi (- 1022) \<le> r \<and> r \<le> 2 powi 1022"
    from a have "2 powi (- 1022) \<le> r" by (rule conjunct1)
    moreover from a have "r \<le> 2 powi 1022" by (rule conjunct2)
    ultimately show "\<exists>d. frame_delay (Finite r) = Inr (Finite d) \<and> \<bar>d - 1 / r\<bar> \<le> 1 / r / 2 ^ 53"
      by (rule frame_delay_accurate)
  qed
  from 1 2 3 4 5 6 show ?thesis by blast
qed

theorem frame_delay_guarded_witness:
  "float_gt0 (Finite 30)
   \<and> frame_delay (Finite 30) = Inr (Finite (4803839602528529 / 144115188075855872))
   \<and> \<bar>4803839602528529 / 144115188075855872 - 1 / 30 :: rat\<bar> \<le> 1 / 30 / 2 ^ 53
   \<and> \<not> float_gt0 (Finite 0)
   \<and> frame_delay (Finite 0) = Inr (Finite (1188950301625811 / 36028797018963968))"
proof -
  have d: "float_div (Finite 1) (Finite 30) = Finite (4803839602528529 / 144115188075855872)"
    by (simp add: number_eval)
  have g: "float_gt0 (Finite 30)" "\<not> float_gt0 (Finite 0)" by simp_all
  from frame_delay_guarded [of "Finite 30" 30] frame_delay_guarded [of "Finite 0" 30] d g
  show ?thesis by simp
qed

section \<open>The renderer\<close>

lemma py_getitem_in_range:
  assumes "0 \<le> i" "i < int (length s)"
  shows "py_getitem s i = Inr (s ! nat i)" and "s ! nat i \<in> set s"
  using assms by (simp_all add: py_getitem_def)

lemma glyph_defined:
  assumes "chars \<noteq> []" "length chars \<le> 2 ^ 53"
  shows "\<exists>i. char_index pixel (length chars) = Inr i \<and> py_getitem chars i = Inr (chars ! nat i)
    \<and> chars ! nat i \<in> set chars"
proof -
  let ?n = "length chars"
  let ?i = "\<lfloor>fl (fl (of_nat (luminance pixel) / 255) * of_int (int ?n - 1))\<rfloor>"
  have n: "1 \<le> ?n" "?n \<le> 2 ^ 53" using assms by (simp_all add: Suc_le_eq)
  have "char_index pixel ?n = Inr ?i" using n by (rule char_index_eq)
  moreover have "0 \<le> ?i" using n(1) by (rule char_index_lower)
  moreover have "?i \<le> int ?n - 1" using n by (rule char_index_upper)
  then have "?i < int ?n" by simp
  ultimately show ?thesis using py_getitem_in_range [of ?i chars] by blast
qed

lemma row_to_ascii_shape:
  assumes "chars \<noteq> []" "length chars \<le> 2 ^ 53"
  shows "\<exists>l. row_to_ascii chars acc row = Inr (acc @ l) \<and> length l = length row
    \<and> set l \<subseteq> set chars"
proof (induction row arbitrary: acc)
  case Nil
  show ?case by simp
next
  case (Cons pixel row)
  from glyph_defined [OF assms, of pixel] obtain i where
    i: "char_index pixel (length chars) = Inr i" "py_getitem chars i = Inr (chars ! nat i)"
      "chars ! nat i \<in> set chars" by blast
  from Cons.IH [of "acc @ [chars ! nat i]"] obtain l where
    l: "row_to_ascii chars (acc @ [chars ! nat i]) row = Inr ((acc @ [chars ! nat i]) @ l)"
      "length l = length row" "set l \<subseteq> set chars" by blast
  have "row_to_ascii chars acc (pixel # row) = Inr (acc @ (chars ! nat i # l))"
    using i l(1) by simp
  moreover have "length (chars ! nat i # l) = length (pixel # row)" using l(2) by simp
  moreover have "set (chars ! nat i # l) \<subseteq> set chars" using l(3) i(3) by simp
  ultimately show ?case by blast
qed

lemma rows_to_ascii_shape:
  assumes "chars \<noteq> []" "length chars \<le> 2 ^ 53"
  shows "\<exists>ls. rows_to_ascii chars acc gray = Inr (acc @ text_block ls)
    \<and> length ls = length gray
    \<and> (\<forall>k < length gray. length (ls ! k) = length (gray ! k) \<and> set (ls ! k) \<subseteq> set chars)"
proof (induction gray arbitrary: acc)
  case Nil
  have "rows_to_ascii chars acc [] = Inr (acc @ text_block [])" by (simp add: text_block_def)
  then show ?case by fastforce
next
  case (Cons row gray)
  from row_to_ascii_shape [OF assms, of acc row] obtain l where
    l: "row_to_ascii chars acc row = Inr (acc @ l)" "length l = length row" "set l \<subseteq> set chars"
    by blast
  from Cons.IH [of "(acc @ l) @ [CHR 0x0A]"] obtain ls where
    ls: "rows_to_ascii chars ((acc @ l) @ [CHR 0x0A]) gray = Inr (((acc @ l) @ [CHR 0x0A]) @ text_block ls)"
      "length ls = length gray"
      "\<forall>k < length gray. length (ls ! k) = length (gray ! k) \<and> set (ls ! k) \<subseteq> set chars"
    by blast
  have "rows_to_ascii chars acc (row # gray) = Inr (acc @ text_block (l # ls))"
    using l(1) ls(1) by (simp add: text_block_def)
  moreover have "length (l # ls) = length (row # gray)" using ls(2) by simp
  moreover have "\<forall>k < length (row # gray).
      length ((l # ls) ! k) = length ((row # gray) ! k) \<and> set ((l # ls) ! k) \<subseteq> set chars"
    using l(2,3) ls(3) by (auto simp: nth_Cons split: nat.splits)
  ultimately show ?case by blast
qed

lemma ramps_without_newline:
  "CHR 0x0A \<notin> set ASCII_CHARS" "CHR 0x0A \<notin> set DETAILED_CHARS"
  by (simp_all add: ASCII_CHARS_def DETAILED_CHARS_def)

text \<open>
  C5. For a frame that OpenCV resizes to \<open>height\<close> rows of \<open>width\<close> pixels, with
  \<open>width > 0\<close>, \<open>height > 0\<close> and a non-empty ramp (of at most \<open>2 ^ 53\<close> characters, as
  every string is), \<open>frame_to_ascii\<close> returns a text block of exactly \<open>height\<close> lines,
  each of exactly \<open>width\<close> characters of the ramp and closed by a newline; with either
  ramp of the player no line contains a newline of its own. The function reads its
  arguments and returns the text: the capture, the terminal and the frame counter are no
  part of its result.
\<close>

theorem frame_to_ascii_shape:
  assumes "0 < width p" "0 < height p"
    and "ascii_chars p \<noteq> []" "length (ascii_chars p) \<le> 2 ^ 53"
    and "length (resize_gray env frame (nat (width p)) (nat (height p))) = nat (height p)"
    and "\<forall>row \<in> set (resize_gray env frame (nat (width p)) (nat (height p))).
           length row = nat (width p)"
  shows "\<exists>ls. frame_to_ascii env p frame = Inr (text_block ls)
    \<and> int (length ls) = height p
    \<and> (\<forall>l \<in> set ls. int (length l) = width p \<and> set l \<subseteq> set (ascii_chars p))
    \<and> (ascii_chars p = ASCII_CHARS \<or> ascii_chars p = DETAILED_CHARS \<longrightarrow>
         (\<forall>l \<in> set ls. CHR 0x0A \<notin> set l))"
proof -
  let ?gray = "resize_gray env frame (nat (width p)) (nat (height p))"
  from rows_to_ascii_shape [OF assms(3,4), of "[]" ?gray] obtain ls where
    ls: "rows_to_ascii (ascii_chars p) [] ?gray = Inr (text_block ls)"
      "length ls = length ?gray"
      "\<forall>k < length ?gray. length (ls ! k) = length (?gray ! k) \<and> set (ls ! k) \<subseteq> set (ascii_chars p)"
    by auto
  have 1: "frame_to_ascii env p frame = Inr (text_block ls)"
    using assms(1,2) ls(1) by (simp add: frame_to_ascii_def)
  have 2: "int (length ls) = height p" using ls(2) assms(2,5) by simp
  have 3: "\<forall>l \<in> set ls. int (length l) = width p \<and> set l \<subseteq> set (ascii_chars p)"
  proof
    fix l assume "l \<in> set ls"
    then obtain k where k: "k < length ls" "l = ls ! k" by (auto simp: in_set_conv_nth)
    then have "?gray ! k \<in> set ?gray" using ls(2) by simp
    then have "length (?gray ! k) = nat (width p)" using assms(6) by blast
    then show "int (length l) = width p \<and> set l \<subseteq> set (ascii_chars p)"
      using k ls(2,3) assms(1) by simp
  qed
  have 4: "ascii_chars p = ASCII_CHARS \<or> ascii_chars p = DETAILED_CHARS \<longrightarrow>
         (\<forall>l \<in> set ls. CHR 0x0A \<notin> set l)"
  proof (intro impI ballI)
    fix l
    assume r: "ascii_chars p = ASCII_CHARS \<or> ascii_chars p = DETAILED_CHARS" and l: "l \<in> set ls"
    from r have n: "CHR 0x0A \<notin> set (ascii_chars p)"
      using ramps_without_newline by (elim disjE) simp_all
    from 3 l have "set l \<subseteq> set (ascii_chars p)" by simp
    with n show "CHR 0x0A \<notin> set l" by (simp add: subset_iff) (erule contrapos_nn, simp)
  qed
  from 1 2 3 4 show ?thesis by blast
qed

theorem frame_to_ascii_shape_witness:
  "0 < width (sample_player 2) \<and> 0 < height (sample_player 2)
   \<and> ascii_chars (sample_player 2) \<noteq> [] \<and> length (ascii_chars (sample_player 2)) \<le> 2 ^ 53
   \<and> resize_gray (sample_env (Finite 2) None) 100 (nat (width (sample_player 2)))
        (nat (height (sample_player 2))) = [[100]]
   \<and> (\<exists>ls. frame_to_ascii (sample_env (Finite 2) None) (sample_player 2) 100 = Inr (text_block ls)
         \<and> int (length ls) = 1 \<and> (\<forall>l \<in> set ls. int (length l) = 1))
   \<and> frame_to_ascii (sample_env (Finite 2) None) (sample_player 2) 100 = Inr (text_block [''*''])"
proof -
  let ?env = "sample_env (Finite 2) None" and ?p = "sample_player 2"
  have p: "width ?p = 1" "height ?p = 1" "ascii_chars ?p = ASCII_CHARS"
    by (simp_all add: sample_player_def)
  have g: "resize_gray ?env 100 (nat (width ?p)) (nat (height ?p)) = [[100]]"
    by (simp add: p sample_env_def numeral_eq_Suc)
  have h: "0 < width ?p" "0 < height ?p" "ascii_chars ?p \<noteq> []" "length (ascii_chars ?p) \<le> 2 ^ 53"
    "length (resize_gray ?env 100 (nat (width ?p)) (nat (height ?p))) = nat (height ?p)"
    "\<forall>row \<in> set (resize_gray ?env 100 (nat (width ?p)) (nat (height ?p))). length row = nat (width ?p)"
    unfolding g by (simp_all add: p ramp_lengths ASCII_CHARS_def)
  have c: "char_index 100 10 = Inr 3"
    by (simp add: char_index_def luminance_def number_eval)
  have e: "frame_to_ascii ?env ?p 100 = Inr (text_block [''*''])"
    unfolding frame_to_ascii_def g
    by (simp add: p c ramp_lengths py_getitem_def) (simp add: ASCII_CHARS_def text_block_def)
  from frame_to_ascii_shape [OF h] obtain ls where
    "frame_to_ascii ?env ?p 100 = Inr (text_block ls)" "int (length ls) = height ?p"
    "\<forall>l \<in> set ls. int (length l) = width ?p \<and> set l \<subseteq> set (ascii_chars ?p)"
    by blast
  then have "\<exists>ls. frame_to_ascii ?env ?p 100 = Inr (text_block ls)
         \<and> int (length ls) = 1 \<and> (\<forall>l \<in> set ls. int (length l) = 1)"
    unfolding p by blast
  with h g e show ?thesis by blast
qed

section \<open>The steps of playback\<close>

lemma counters_append: "counters (xs @ ys) = counters xs @ counters ys"
  by (induction xs rule: counters.induct) simp_all

lemma shown_append: "shown (xs @ ys) = shown xs @ shown ys"
  by (induction xs rule: shown.induct) simp_all

lemma statuses_append: "statuses (xs @ ys) = statuses xs @ statuses ys"
  by (induction xs rule: statuses.induct) simp_all

lemma checkpoint_Inr:
  assumes "checkpoint env w = Inr w'"
  shows "cap w' = cap w" "out w' = out w" "frame_num w' = frame_num w"
  using assms by (auto simp: checkpoint_def split: if_splits)

lemma checkpoint_Inl:
  assumes "checkpoint env w = Inl e"
  shows "e = KeyboardInterrupt"
  using assms by (auto simp: checkpoint_def split: if_splits)

text \<open>An iteration that goes round again has shown one frame and one progress line.\<close>

lemma play_step_continue:
  assumes "play_step env p w = (Inr True, w')"
  shows "pos (cap w) < length (frames (cap w))"
    and "cap w' = (cap w)\<lparr>pos := Suc (pos (cap w))\<rparr>"
    and "frame_num w' = frame_num w + 1"
    and "\<exists>a x. frame_to_ascii env p (frames (cap w) ! pos (cap w)) = Inr a
           \<and> percent (frame_num w) (frame_count p) = Inr x
           \<and> out w' = out w @ [CursorHome, Frame a, Progress (frame_num w) (frame_count p) x]"
  using assms
  by (auto simp: play_step_def checkpoint_def cap_read_def emit_def Let_def
      split: if_splits sum.splits option.splits prod.splits)

text \<open>What any iteration does, however it ends.\<close>

lemma play_step_effect:
  assumes "play_step env p w = (r, w')"
  shows "frames (cap w') = frames (cap w) \<and> seeks (cap w') = seeks (cap w)
      \<and> releases (cap w') = releases (cap w)"
    and "pos (cap w) \<le> pos (cap w') \<and> pos (cap w') \<le> Suc (pos (cap w))"
    and "frame_num w \<le> frame_num w' \<and> frame_num w' \<le> frame_num w + 1"
    and "frame_num w' = frame_num w + 1 \<longrightarrow>
           pos (cap w) < length (frames (cap w)) \<and> pos (cap w') = Suc (pos (cap w))"
    and "\<exists>evs. out w' = out w @ evs \<and> statuses evs = []
           \<and> frame_num w' = frame_num w + int (length (counters evs))
           \<and> length (counters evs) \<le> length (shown evs) \<and> length (shown evs) \<le> 1"
  using assms
  by (auto simp: play_step_def checkpoint_def cap_read_def emit_def Let_def
      split: if_splits sum.splits option.splits prod.splits)

text \<open>What holds whenever the loop starts an iteration.\<close>

lemma at_loop_head_inv:
  assumes "at_loop_head env p e s"
  shows "frames (cap s) = frames (cap e) \<and> seeks (cap s) = seeks (cap e)
      \<and> releases (cap s) = releases (cap e)
      \<and> pos (cap e) \<le> pos (cap s)
      \<and> frame_num s = frame_num e + (int (pos (cap s)) - int (pos (cap e)))
      \<and> (s = e \<or> pos (cap s) \<le> length (frames (cap e)))
      \<and> (\<exists>evs. out s = out e @ evs \<and> statuses evs = []
            \<and> length (counters evs) = pos (cap s) - pos (cap e)
            \<and> length (shown evs) = pos (cap s) - pos (cap e))"
  using assms
proof (induction rule: at_loop_head.induct)
  case entry
  show ?case by simp
next
  case (again w w')
  from again.IH obtain evs where
    evs: "out w = out e @ evs" "statuses evs = []"
      "length (counters evs) = pos (cap w) - pos (cap e)"
      "length (shown evs) = pos (cap w) - pos (cap e)"
    by blast
  from play_step_continue(4) [OF again.hyps(2)] obtain a x where
    o: "out w' = out w @ [CursorHome, Frame a, Progress (frame_num w) (frame_count p) x]"
    by blast
  let ?evs = "evs @ [CursorHome, Frame a, Progress (frame_num w) (frame_count p) x]"
  have "out w' = out e @ ?evs" using o evs(1) by simp
  moreover have "statuses ?evs = []" using evs(2) by (simp add: statuses_append)
  moreover have "length (counters ?evs) = pos (cap w') - pos (cap e)"
    using evs(3) again.IH play_step_continue(2) [OF again.hyps(2)]
    by (simp add: counters_append Suc_diff_le)
  moreover have "length (shown ?evs) = pos (cap w') - pos (cap e)"
    using evs(4) again.IH play_step_continue(2) [OF again.hyps(2)]
    by (simp add: shown_append Suc_diff_le)
  ultimately have "\<exists>evs. out w' = out e @ evs \<and> statuses evs = []
      \<and> length (counters evs) = pos (cap w') - pos (cap e)
      \<and> length (shown evs) = pos (cap w') - pos (cap e)"
    by blast
  moreover have "frames (cap w') = frames (cap e) \<and> seeks (cap w') = seeks (cap e)
      \<and> releases (cap w') = releases (cap e) \<and> pos (cap e) \<le> pos (cap w')
      \<and> frame_num w' = frame_num e + (int (pos (cap w')) - int (pos (cap e)))
      \<and> pos (cap w') \<le> length (frames (cap e))"
    using again.IH play_step_continue(1,2,3) [OF again.hyps(2)] by simp
  ultimately show ?case by blast
qed

lemma at_loop_head_trans:
  assumes "at_loop_head env p e s" "at_loop_head env p s t"
  shows "at_loop_head env p e t"
  using assms(2,1)
  by (induction rule: at_loop_head.induct) (auto intro: at_loop_head.again)

text \<open>
  The loop function ends where the last iteration ends, and that iteration started at a
  loop head.
\<close>

lemma play_loop_final:
  assumes "play_loop env p w = (r, w')"
  shows "\<exists>s r'. at_loop_head env p w s \<and> play_step env p s = (r', w') \<and> r' \<noteq> Inr True
      \<and> r = (case r' of Inl e \<Rightarrow> Inl e | Inr b \<Rightarrow> Inr ())"
  using assms
proof (induction env p w rule: play_loop.induct)
  case (1 env p w)
  obtain r1 w1 where s: "play_step env p w = (r1, w1)" by (cases "play_step env p w")
  show ?case
  proof (cases "r1 = Inr True")
    case True
    with s "1.prems" have l: "play_loop env p w1 = (r, w')"
      by (simp add: play_loop.simps [of env p w])
    from "1.IH" [OF s [symmetric] True refl l] obtain t r' where
      t: "at_loop_head env p w1 t" "play_step env p t = (r', w')" "r' \<noteq> Inr True"
        "r = (case r' of Inl e \<Rightarrow> Inl e | Inr b \<Rightarrow> Inr ())"
      by auto
    have "at_loop_head env p w w1"
      using at_loop_head.entry s True by (auto intro: at_loop_head.again)
    then have "at_loop_head env p w t" using t(1) by (rule at_loop_head_trans)
    with t show ?thesis by blast
  next
    case False
    with s "1.prems" have "w' = w1" "r = (case r1 of Inl e \<Rightarrow> Inl e | Inr b \<Rightarrow> Inr ())"
      by (auto simp: play_loop.simps [of env p w] split: sum.splits bool.splits)
    with s False at_loop_head.entry [of env p w] show ?thesis by blast
  qed
qed

text \<open>What the whole loop does, however it ends.\<close>

lemma play_loop_effect:
  assumes "play_loop env p w = (r, w')"
  shows "seeks (cap w') = seeks (cap w) \<and> releases (cap w') = releases (cap w)
      \<and> frames (cap w') = frames (cap w) \<and> frame_num w \<le> frame_num w'
      \<and> (\<exists>evs. out w' = out w @ evs \<and> statuses evs = [])"
proof -
  from play_loop_final [OF assms] obtain s r' where
    s: "at_loop_head env p w s" "play_step env p s = (r', w')" by blast
  from at_loop_head_inv [OF s(1)] obtain evs where
    i: "frames (cap s) = frames (cap w)" "seeks (cap s) = seeks (cap w)"
      "releases (cap s) = releases (cap w)" "pos (cap w) \<le> pos (cap s)"
      "frame_num s = frame_num w + (int (pos (cap s)) - int (pos (cap w)))"
      "out s = out w @ evs" "statuses evs = []"
    by blast
  from play_step_effect(5) [OF s(2)] obtain evs' where
    e: "out w' = out s @ evs'" "statuses evs' = []" by blast
  have "out w' = out w @ (evs @ evs')" "statuses (evs @ evs') = []"
    using i(6,7) e by (simp_all add: statuses_append)
  then have "\<exists>evs. out w' = out w @ evs \<and> statuses evs = []" by blast
  then show ?thesis
    using i play_step_effect(1,3) [OF s(2)] by simp
qed

text \<open>The statements before the loop.\<close>

lemma play_init_Inr:
  assumes "play_init env p start w = (Inr d, e)"
  shows "frame_num e = start"
    and "if 0 < start then cap_set_pos (cap w) start = Inr (cap e) else cap e = cap w"
    and "out e = out w @ [Banner (video_path p) (original_width p) (original_height p)
           (width p) (height p) (fps p) (frame_count p), Pause, ClearScreen]"
    and "frame_delay (fps p) = Inr d"
    and "delay e = d"
  using assms
  by (auto simp: play_init_def checkpoint_def emit_def Let_def
      split: if_splits sum.splits option.splits)

lemma cap_set_pos_Inr:
  assumes "cap_set_pos c i = Inr c'"
  shows "c' = c\<lparr>pos := nat i, seeks := seeks c @ [i]\<rparr>"
  using assms by (auto simp: cap_set_pos_def split: sum.splits)

lemma play_init_effect:
  assumes "play_init env p start w = (r, e)"
  shows "releases (cap e) = releases (cap w)"
    and "start \<le> 0 \<longrightarrow> cap e = cap w"
    and "\<exists>evs. out e = out w @ evs \<and> statuses evs = []"
    and "frames (cap e) = frames (cap w)"
  using assms
  by (auto simp: play_init_def checkpoint_def emit_def cap_set_pos_def Let_def
      split: if_splits sum.splits option.splits)

lemma frame_delay_total: "\<exists>d. frame_delay f = Inr d"
  by (cases f) (auto simp: frame_delay_def py_float_truediv_def)

text \<open>A status line is printed whole or not at all.\<close>

lemma print_status_cases:
  "(print_status env symbol line w = Inr (emit [Print line] w) \<and> stdout_error env symbol = None)
   \<or> (\<exists>msg. print_status env symbol line w = Inl (UnicodeEncodeError msg)
         \<and> stdout_error env symbol = Some msg)"
  by (cases "stdout_error env symbol") (simp_all add: print_status_def)

text \<open>The \<open>try\<close> block as a whole.\<close>

lemma play_body_all:
  assumes "play_body env p start w = (r, w')"
  shows "releases (cap w') = releases (cap w)
      \<and> (start \<le> 0 \<longrightarrow> seeks (cap w') = seeks (cap w))
      \<and> (\<exists>evs. out w' = out w @ evs \<and> statuses evs = (if r = Inr () then [complete_msg] else []))
      \<and> (r = Inr () \<longrightarrow> last (out w') = Print complete_msg)"
proof -
  obtain r1 e where i: "play_init env p start w = (r1, e)" by (cases "play_init env p start w")
  from play_init_effect [OF i] obtain evs1 where
    e: "releases (cap e) = releases (cap w)" "start \<le> 0 \<longrightarrow> cap e = cap w"
      "out e = out w @ evs1" "statuses evs1 = []"
    by blast
  show ?thesis
  proof (cases r1)
    case (Inl x)
    with i assms have "r = Inl x" "w' = e" by (simp_all add: play_body_def)
    with e show ?thesis by auto
  next
    case (Inr d)
    obtain r2 w2 where l: "play_loop env p e = (r2, w2)" by (cases "play_loop env p e")
    from play_loop_effect [OF l] obtain evs2 where
      w2: "seeks (cap w2) = seeks (cap e)" "releases (cap w2) = releases (cap e)"
        "out w2 = out e @ evs2" "statuses evs2 = []"
      by blast
    have o2: "out w2 = out w @ (evs1 @ evs2)" "statuses (evs1 @ evs2) = []"
      using e(3,4) w2(3,4) by (simp_all add: statuses_append)
    show ?thesis
    proof (cases r2)
      case (Inl x)
      with i Inr l assms have "r = Inl x" "w' = w2" by (simp_all add: play_body_def)
      with e w2 o2 show ?thesis by auto
    next
      case r2: (Inr u)
      show ?thesis
      proof (cases "checkpoint env w2")
        case (Inl x)
        with i Inr l r2 assms have "r = Inl x" "w' = w2" by (simp_all add: play_body_def)
        with e w2 o2 show ?thesis by auto
      next
        case c: (Inr w3)
        from print_status_cases [of env CHECK_MARK complete_msg w3] show ?thesis
        proof (elim disjE exE conjE)
          fix msg
          assume "print_status env CHECK_MARK complete_msg w3 = Inl (UnicodeEncodeError msg)"
          with i Inr l r2 c assms have "r = Inl (UnicodeEncodeError msg)" "w' = w3"
            by (simp_all add: play_body_def)
          with e w2 o2 checkpoint_Inr(1,2) [OF c] show ?thesis by auto
        next
          assume "print_status env CHECK_MARK complete_msg w3 = Inr (emit [Print complete_msg] w3)"
          with i Inr l r2 c assms have r: "r = Inr ()" "w' = emit [Print complete_msg] w3"
            by (simp_all add: play_body_def)
          have "out w' = out w @ ((evs1 @ evs2) @ [Print complete_msg])"
            using r(2) checkpoint_Inr(2) [OF c] o2(1) by (simp add: emit_def)
          moreover have "statuses ((evs1 @ evs2) @ [Print complete_msg]) = [complete_msg]"
            using o2(2) by (simp add: statuses_append)
          moreover have "cap w' = cap w2"
            using r(2) checkpoint_Inr(1) [OF c] by (simp add: emit_def)
          ultimately show ?thesis using r(1) e w2 by auto
        qed
      qed
    qed
  qed
qed

lemma play_body_effect:
  assumes "play_body env p start w = (r, w')"
  shows "releases (cap w') = releases (cap w)"
    and "start \<le> 0 \<longrightarrow> seeks (cap w') = seeks (cap w)"
    and "\<exists>evs. out w' = out w @ evs
           \<and> statuses evs = (if r = Inr () then [complete_msg] else [])"
    and "r = Inr () \<longrightarrow> last (out w') = Print complete_msg"
  using play_body_all [OF assms] by blast+



section \<open>The sample clip, evaluated\<close>

lemma sample_numbers:
  "compute_height 1 200 100 = Inr 1"
  "frame_delay (Finite 30) = Inr (Finite (4803839602528529 / 144115188075855872))"
  "percent 0 2 = Inr (Finite 0)"
  "percent 1 2 = Inr (Finite 50)"
  "percent (- 1) 2 = Inr (Finite (- 50))"
  "percent n 0 = Inl ZeroDivisionError"
  "char_index 0 10 = Inr 0"
  "char_index 255 10 = Inr 9"
  "float_sub (Finite 0) (Finite 0) = Finite 0"
  "float_sub (Finite (4803839602528529 / 144115188075855872)) (Finite 0) =
     Finite (4803839602528529 / 144115188075855872)"
  "cap_set_pos c 5 = Inr (c\<lparr>pos := 5, seeks := seeks c @ [5]\<rparr>)"
  by (simp_all add: compute_height_def frame_delay_def percent_def char_index_def luminance_def
      cap_set_pos_def number_eval)

lemma sample_frames:
  "frame_to_ascii (sample_env n sig) (sample_player c) 0 = Inr (text_block [''@''])"
  "frame_to_ascii (sample_env n sig) (sample_player c) 255 = Inr (text_block ['' ''])"
  by (simp_all add: frame_to_ascii_def sample_env_def sample_player_def ramp_lengths
      sample_numbers py_getitem_def)
    (simp_all add: ASCII_CHARS_def text_block_def)

lemma sample_init:
  "init_player (sample_env (Finite 2) sig) ''clip.mp4'' 1 False = Inr (sample_player 2, clip (Finite 2))"
  "init_player (sample_env (Finite 0) sig) ''clip.mp4'' 1 False = Inr (sample_player 0, clip (Finite 0))"
  by (simp_all add: init_player_def sample_env_def sample_player_def clip_def sample_numbers)

lemmas sample_eval =
  play_def play_body_def play_init_def play_loop.simps play_step_def checkpoint_def emit_def
  pace_def print_status_def cleanup_def cap_read_def cap_release_def Let_def
  sample_numbers sample_frames

lemma sample_fields:
  "fps (sample_player c) = Finite 30" "frame_count (sample_player c) = c"
  "video_path (sample_player c) = ''clip.mp4''" "width (sample_player c) = 1"
  "height (sample_player c) = 1" "original_width (sample_player c) = 100"
  "original_height (sample_player c) = 200"
  "sigint (sample_env n sig) = sig" "isfile (sample_env n sig) path = (path = ''clip.mp4'')"
  "time_time (sample_env n sig) k = Finite 0" "time_sleep (sample_env n sig) x = None"
  "stdout_error (sample_env n sig) u = None"
  "frames (clip n) = [0, 255]" "pos (clip n) = 0" "seeks (clip n) = []" "releases (clip n) = 0"
  by (simp_all add: sample_player_def sample_env_def clip_def)

lemma cp1252_fields:
  "isfile (cp1252_env n sig) = isfile (sample_env n sig)"
  "sigint (cp1252_env n sig) = sig"
  "time_time (cp1252_env n sig) k = Finite 0" "time_sleep (cp1252_env n sig) x = None"
  "stdout_error (cp1252_env n sig) CHECK_MARK = Some (charmap_error ''2713'')"
  "stdout_error (cp1252_env n sig) PAUSE_SIGN = Some (charmap_error ''23f8'')"
  "frame_to_ascii (cp1252_env n sig) = frame_to_ascii (sample_env n sig)"
  by (simp_all add: cp1252_env_def cp1252_stdout_def CHECK_MARK_def PAUSE_SIGN_def sample_fields
      frame_to_ascii_def fun_eq_iff)

lemma cp1252_init:
  "init_player (cp1252_env n sig) = init_player (sample_env n sig)"
  by (simp add: init_player_def cp1252_env_def fun_eq_iff)

lemma sample_play_init:
  "start \<le> 0 \<Longrightarrow>
   play_init (sample_env (Finite 2) None) (sample_player 2) start (sample_world (Finite 2)) =
     (Inr (Finite (4803839602528529 / 144115188075855872)), sample_entry start)"
  by (simp add: sample_entry_def sample_eval sample_fields sample_world_def)

lemma sample_entry_eq:
  "start \<le> 0 \<Longrightarrow> sample_entry start =
     \<lparr>cap = clip (Finite 2),
      out = [Banner ''clip.mp4'' 100 200 1 1 (Finite 30) 2, Pause, ClearScreen],
      frame_num = start, delay = Finite (4803839602528529 / 144115188075855872), ticks = 4\<rparr>"
  "frame_num (sample_entry 5) = 5"
  by (simp_all add: sample_entry_def sample_eval sample_fields sample_world_def)

lemma sample_play_step:
  "play_step (sample_env (Finite 2) None) (sample_player 2) s = (fst (play_step (sample_env (Finite 2) None) (sample_player 2) s), sample_next s)"
  by (simp add: sample_next_def)

lemma sample_first_step:
  "fst (play_step (sample_env (Finite 2) None) (sample_player 2) (sample_entry 0)) = Inr True"
  "sample_next (sample_entry 0) =
     \<lparr>cap = (clip (Finite 2))\<lparr>pos := 1\<rparr>,
      out = [Banner ''clip.mp4'' 100 200 1 1 (Finite 30) 2, Pause, ClearScreen,
             CursorHome, Frame (text_block [''@'']), Progress 0 2 (Finite 0)],
      frame_num = 1, delay = Finite (4803839602528529 / 144115188075855872), ticks = 8\<rparr>"
  by (simp_all add: sample_next_def sample_entry_eq sample_eval sample_fields)

lemma sample_second_step:
  "fst (play_step (sample_env (Finite 2) None) (sample_player 2) (sample_next (sample_entry 0)))
     = Inr True"
  "sample_next (sample_next (sample_entry 0)) =
     \<lparr>cap = (clip (Finite 2))\<lparr>pos := 2\<rparr>,
      out = [Banner ''clip.mp4'' 100 200 1 1 (Finite 30) 2, Pause, ClearScreen,
             CursorHome, Frame (text_block [''@'']), Progress 0 2 (Finite 0),
             CursorHome, Frame (text_block ['' '']), Progress 1 2 (Finite 50)],
      frame_num = 2, delay = Finite (4803839602528529 / 144115188075855872), ticks = 12\<rparr>"
  by (simp_all add: sample_first_step(2)) (simp_all add: sample_next_def sample_eval sample_fields clip_def)


section \<open>The progress line\<close>



text \<open>
  C1. For a source that reports a frame count of zero, the progress line is claimed to
  show 0 percent without a division error. The code guards the frame rate against zero
  but not the frame count: \<open>frame_num / self.frame_count\<close> raises
  \<open>ZeroDivisionError\<close> for every counter, so the first frame of such a source ends the
  run with exit code 1 and the message of the exception, after the capture was
  released.
\<close>

theorem zero_frame_count_raises:
  "percent n 0 = Inl ZeroDivisionError
   \<and> exit_code (main (sample_env (Finite 0) None) (sample_args 0)) = 1
   \<and> printed (main (sample_env (Finite 0) None) (sample_args 0)) =
       [Banner ''clip.mp4'' 100 200 1 1 (Finite 30) 0, Pause, ClearScreen,
        CursorHome, Frame (text_block [''@'']), Print ''Error: division by zero'']"
proof (intro conjI)
  show "percent n 0 = Inl ZeroDivisionError"
    by (simp add: percent_def py_int_truediv_def)
  have m: "main (sample_env (Finite 0) None) (sample_args 0) =
      \<lparr>exit_code = 1,
       printed = [Banner ''clip.mp4'' 100 200 1 1 (Finite 30) 0, Pause, ClearScreen,
         CursorHome, Frame (text_block [''@'']), Print ''Error: division by zero''],
       opened = [''clip.mp4''],
       final_cap = Some ((clip (Finite 0))\<lparr>pos := 1, releases := 1\<rparr>)\<rparr>"
    by (simp add: main_def sample_args_def sample_init sample_eval sample_fields
        is_Exception_def)
  show "exit_code (main (sample_env (Finite 0) None) (sample_args 0)) = 1"
    by (simp add: m)
  show "printed (main (sample_env (Finite 0) None) (sample_args 0)) =
       [Banner ''clip.mp4'' 100 200 1 1 (Finite 30) 0, Pause, ClearScreen,
        CursorHome, Frame (text_block [''@'']), Print ''Error: division by zero'']"
    by (simp add: m)
qed

section \<open>The frame counter\<close>

text \<open>
  C3, as the code has it. In one pass of \<open>play\<close> the frame counter starts at the start
  index, never decreases, and advances by exactly one with each progress line, that is,
  with each frame put on the terminal and counted. It stays within \<open>[0, frame_count]\<close>
  when the start index lies in that range and the source delivers no more frames than
  it reports (read from the beginning when the start index is 0); the code checks
  neither.
\<close>

theorem frame_index_advances:
  assumes "play_init env p start w = (Inr d, e)"
    and "at_loop_head env p e s"
    and "play_step env p s = (r, s')"
  shows "frame_num e = start
    \<and> start \<le> frame_num s \<and> frame_num s \<le> frame_num s' \<and> frame_num s' \<le> frame_num s + 1
    \<and> frame_num s = start + (int (length (counters (out s))) - int (length (counters (out e))))
    \<and> frame_num s' = start + (int (length (counters (out s'))) - int (length (counters (out e))))
    \<and> (r = Inr True \<longrightarrow> frame_num s' = frame_num s + 1
          \<and> counters (out s') = counters (out s) @ [frame_num s])
    \<and> (0 \<le> start \<and> start \<le> frame_count p \<and> int (length (frames (cap w))) \<le> frame_count p
          \<and> (start = 0 \<longrightarrow> pos (cap w) = 0)
        \<longrightarrow> 0 \<le> frame_num s \<and> frame_num s \<le> frame_count p
          \<and> 0 \<le> frame_num s' \<and> frame_num s' \<le> frame_count p)"
proof -
  note i = play_init_Inr [OF assms(1)]
  from at_loop_head_inv [OF assms(2)] obtain evs where
    inv: "frames (cap s) = frames (cap e)" "pos (cap e) \<le> pos (cap s)"
      "frame_num s = frame_num e + (int (pos (cap s)) - int (pos (cap e)))"
      "s = e \<or> pos (cap s) \<le> length (frames (cap e))"
      "out s = out e @ evs" "length (counters evs) = pos (cap s) - pos (cap e)"
    by blast
  from play_step_effect(5) [OF assms(3)] obtain evs' where
    st: "out s' = out s @ evs'" "frame_num s' = frame_num s + int (length (counters evs'))"
    by blast
  note ef = play_step_effect(3,4) [OF assms(3)]
  have 1: "frame_num e = start" by (rule i(1))
  have 2: "start \<le> frame_num s" using inv(2,3) i(1) by simp
  have 3: "frame_num s \<le> frame_num s' \<and> frame_num s' \<le> frame_num s + 1" by (rule ef(1))
  have 4: "frame_num s = start + (int (length (counters (out s))) - int (length (counters (out e))))"
    using inv(2,3,5,6) i(1) by (simp add: counters_append)
  have 5: "frame_num s' = start + (int (length (counters (out s'))) - int (length (counters (out e))))"
    using 4 st by (simp add: counters_append)
  have 6: "r = Inr True \<longrightarrow> frame_num s' = frame_num s + 1
          \<and> counters (out s') = counters (out s) @ [frame_num s]"
  proof
    assume "r = Inr True"
    with assms(3) have c: "play_step env p s = (Inr True, s')" by simp
    from play_step_continue(4) [OF c] obtain a x where
      "out s' = out s @ [CursorHome, Frame a, Progress (frame_num s) (frame_count p) x]"
      by blast
    then have "counters (out s') = counters (out s) @ [frame_num s]"
      by (simp add: counters_append)
    with play_step_continue(3) [OF c]
    show "frame_num s' = frame_num s + 1 \<and> counters (out s') = counters (out s) @ [frame_num s]"
      by simp
  qed
  have 7: "0 \<le> start \<and> start \<le> frame_count p \<and> int (length (frames (cap w))) \<le> frame_count p
          \<and> (start = 0 \<longrightarrow> pos (cap w) = 0)
        \<longrightarrow> 0 \<le> frame_num s \<and> frame_num s \<le> frame_count p
          \<and> 0 \<le> frame_num s' \<and> frame_num s' \<le> frame_count p"
  proof
    assume h: "0 \<le> start \<and> start \<le> frame_count p \<and> int (length (frames (cap w))) \<le> frame_count p
          \<and> (start = 0 \<longrightarrow> pos (cap w) = 0)"
    have ce: "if 0 < start
        then cap e = (cap w)\<lparr>pos := nat start, seeks := seeks (cap w) @ [start]\<rparr>
        else cap e = cap w"
      using i(2) by (cases "0 < start") (auto dest: cap_set_pos_Inr)
    have fe: "frames (cap e) = frames (cap w)"
      using ce by (cases "0 < start") simp_all
    have pe: "int (pos (cap e)) = start"
      using ce h by (cases "0 < start") simp_all
    then have fs: "frame_num s = int (pos (cap s))" using inv(3) i(1) by simp
    have a: "frame_num s \<le> frame_count p"
    proof (cases "s = e")
      case True
      then show ?thesis using i(1) h by simp
    next
      case False
      with inv(4) have "pos (cap s) \<le> length (frames (cap w))" using fe by simp
      then show ?thesis using fs h by simp
    qed
    have b: "frame_num s' \<le> frame_count p"
    proof (cases "frame_num s' = frame_num s + 1")
      case True
      with ef(2) have "pos (cap s) < length (frames (cap s))" by simp
      then have "int (pos (cap s)) + 1 \<le> int (length (frames (cap w)))"
        using inv(1) fe by simp
      then show ?thesis using True fs h by simp
    next
      case False
      with 3 have "frame_num s' = frame_num s" by simp
      with a show ?thesis by simp
    qed
    from 2 3 a b h
    show "0 \<le> frame_num s \<and> frame_num s \<le> frame_count p
          \<and> 0 \<le> frame_num s' \<and> frame_num s' \<le> frame_count p"
      by simp
  qed
  from 1 2 3 4 5 6 7 show ?thesis by blast
qed

theorem frame_index_advances_witness:
  "play_init (sample_env (Finite 2) None) (sample_player 2) 0 (sample_world (Finite 2)) =
     (Inr (Finite (4803839602528529 / 144115188075855872)), sample_entry 0)
   \<and> at_loop_head (sample_env (Finite 2) None) (sample_player 2) (sample_entry 0)
       (sample_next (sample_entry 0))
   \<and> play_step (sample_env (Finite 2) None) (sample_player 2) (sample_next (sample_entry 0)) =
       (Inr True, sample_next (sample_next (sample_entry 0)))
   \<and> frame_num (sample_entry 0) = 0
   \<and> frame_num (sample_next (sample_entry 0)) = 1
   \<and> frame_num (sample_next (sample_next (sample_entry 0))) = 2
   \<and> counters (out (sample_next (sample_next (sample_entry 0)))) = [0, 1]
   \<and> frame_count (sample_player 2) = 2"
proof -
  let ?env = "sample_env (Finite 2) None" and ?p = "sample_player 2"
  have 1: "play_init ?env ?p 0 (sample_world (Finite 2)) =
     (Inr (Finite (4803839602528529 / 144115188075855872)), sample_entry 0)"
    by (rule sample_play_init) simp
  have s1: "play_step ?env ?p (sample_entry 0) = (Inr True, sample_next (sample_entry 0))"
    using sample_play_step [of "sample_entry 0"] sample_first_step(1) by simp
  have 2: "at_loop_head ?env ?p (sample_entry 0) (sample_next (sample_entry 0))"
    using at_loop_head.entry s1 by (rule at_loop_head.again)
  have 3: "play_step ?env ?p (sample_next (sample_entry 0)) =
      (Inr True, sample_next (sample_next (sample_entry 0)))"
    using sample_play_step [of "sample_next (sample_entry 0)"] sample_second_step(1) by simp
  have c: "counters (out (sample_next (sample_entry 0))) = [0]"
    by (simp add: sample_first_step(2))
  have c0: "counters (out (sample_entry 0)) = []"
    by (simp add: sample_entry_eq(1))
  from frame_index_advances [OF 1 2 3] c c0 1 2 3 show ?thesis
    by (simp add: sample_fields)
qed

text \<open>
  C3, as the specification words it, fails at both ends of the range: started at
  \<open>-1\<close>, the sample shows the counters \<open>-1\<close> and \<open>0\<close>; started at 5, beyond its 2 frames,
  the counter enters the loop as 5.
\<close>

theorem frame_index_out_of_range:
  "counters (printed (main (sample_env (Finite 2) None) (sample_args (- 1)))) = [- 1, 0]
   \<and> frame_num (sample_entry 5) = 5
   \<and> frame_count (sample_player 2) = 2"
proof -
  have "printed (main (sample_env (Finite 2) None) (sample_args (- 1))) =
      [Banner ''clip.mp4'' 100 200 1 1 (Finite 30) 2, Pause, ClearScreen,
       CursorHome, Frame (text_block [''@'']), Progress (- 1) 2 (Finite (- 50)),
       CursorHome, Frame (text_block ['' '']), Progress 0 2 (Finite 0),
       Print complete_msg]"
    by (simp add: main_def sample_args_def sample_init sample_eval sample_fields)
  then show ?thesis by (simp add: sample_entry_eq(2) sample_fields)
qed


section \<open>Leaving playback\<close>

text \<open>
  C6. Whatever the frame source delivers, at whichever point of the \<open>try\<close> block the
  interrupt arrives and whichever exception leaves the loop, \<open>play\<close> releases the capture
  exactly once: the \<open>finally\<close> clause is the only release, and it runs at the end of the
  natural pass, after the handler of the interrupt, and before an exception travels on
  to the caller. Such an interrupt never leaves \<open>play\<close>.
\<close>

theorem play_releases_once:
  "releases (cap (snd (play env p start w))) = Suc (releases (cap w))
   \<and> (fst (play env p start w) = Inr ()
      \<or> (\<exists>e. fst (play env p start w) = Inl e \<and> is_Exception e))"
proof -
  obtain r w' where b: "play_body env p start w = (r, w')"
    by (cases "play_body env p start w")
  have "releases (cap w') = releases (cap w)" using b by (rule play_body_effect)
  then show ?thesis
    using b print_status_cases [of env PAUSE_SIGN stopped_msg w']
    by (cases r) (auto simp: play_def cleanup_def cap_release_def emit_def is_Exception_def)
qed
text \<open>The status lines are two line feeds, the symbol, and the words.\<close>

lemma status_line_symbols:
  "complete_msg = [CHR 0x0A, CHR 0x0A] @ utf8 CHECK_MARK @ '' Video playback complete!''"
  "stopped_msg = [CHR 0x0A, CHR 0x0A] @ utf8 PAUSE_SIGN @ '' Playback stopped by user''"
  by (simp_all add: complete_msg_def stopped_msg_def CHECK_MARK_def PAUSE_SIGN_def utf8_def
      char_of_def bit_Suc_0_iff)

text \<open>
  On a standard output that can encode the pause sign, both ways of leaving the \<open>try\<close>
  block end the process with exit code 0 and the capture released, and the one status
  line printed is, byte for byte, the check mark with \<open>Video playback complete!\<close> after
  the natural end and the pause sign with \<open>Playback stopped by user\<close> after the
  interrupt. (A block that ends normally has printed the check mark already.)
\<close>

lemma status_lines_on_encoding_stdout:
  assumes "isfile env (video a)"
    and "init_player env (video a) (arg_width a) (arg_detailed a) = Inr (p, c)"
    and "play_body env p (arg_start a)
           \<lparr>cap = c, out = [], frame_num = 0, delay = Finite 0, ticks = 0\<rparr> = (r, w)"
    and "stdout_error env PAUSE_SIGN = None"
    and "r = Inr () \<or> r = Inl KeyboardInterrupt"
  shows "exit_code (main env a) = 0
    \<and> final_cap (main env a) = Some (cap_release (cap w))
    \<and> releases (cap_release (cap w)) = Suc (releases c)
    \<and> (r = Inr () \<longrightarrow>
          printed (main env a) = out w
        \<and> last (printed (main env a)) =
            Print ([CHR 0x0A, CHR 0x0A, CHR 0xE2, CHR 0x9C, CHR 0x93] @ '' Video playback complete!'')
        \<and> statuses (printed (main env a)) =
            [[CHR 0x0A, CHR 0x0A, CHR 0xE2, CHR 0x9C, CHR 0x93] @ '' Video playback complete!''])
    \<and> (r = Inl KeyboardInterrupt \<longrightarrow>
          printed (main env a) = out w @
            [Print ([CHR 0x0A, CHR 0x0A, CHR 0xE2, CHR 0x8F, CHR 0xB8] @ '' Playback stopped by user'')]
        \<and> statuses (printed (main env a)) =
            [[CHR 0x0A, CHR 0x0A, CHR 0xE2, CHR 0x8F, CHR 0xB8] @ '' Playback stopped by user''])"
proof -
  let ?w0 = "\<lparr>cap = c, out = [], frame_num = 0, delay = Finite 0, ticks = 0\<rparr>"
  from play_body_effect [OF assms(3)] obtain evs where
    e: "releases (cap w) = releases (cap ?w0)" "out w = out ?w0 @ evs"
      "statuses evs = (if r = Inr () then [complete_msg] else [])"
      "r = Inr () \<longrightarrow> last (out w) = Print complete_msg"
    by blast
  from assms(5) show ?thesis
  proof
    assume r: "r = Inr ()"
    then have "play env p (arg_start a) ?w0 = (Inr (), cleanup w)"
      using assms(3) by (simp add: play_def)
    then have "main env a = \<lparr>exit_code = 0, printed = out w, opened = [video a],
        final_cap = Some (cap_release (cap w))\<rparr>"
      using assms(1,2) by (simp add: main_def cleanup_def)
    then show ?thesis using r e by (simp add: cap_release_def complete_msg_def)
  next
    assume r: "r = Inl KeyboardInterrupt"
    then have "play env p (arg_start a) ?w0 = (Inr (), cleanup (emit [Print stopped_msg] w))"
      using assms(3,4) by (simp add: play_def print_status_def)
    then have "main env a = \<lparr>exit_code = 0, printed = out w @ [Print stopped_msg],
        opened = [video a], final_cap = Some (cap_release (cap w))\<rparr>"
      using assms(1,2) by (simp add: main_def cleanup_def emit_def)
    then show ?thesis
      using r e by (simp add: cap_release_def statuses_append stopped_msg_def)
  qed
qed

text \<open>
  On a standard output that cannot encode it, the interrupt ends the process with exit
  code 1: the handler's \<open>print\<close> raises, the capture is released, and the top level
  reports the exception.
\<close>

lemma interrupt_on_other_stdout:
  assumes "isfile env (video a)"
    and "init_player env (video a) (arg_width a) (arg_detailed a) = Inr (p, c)"
    and "play_body env p (arg_start a)
           \<lparr>cap = c, out = [], frame_num = 0, delay = Finite 0, ticks = 0\<rparr> =
         (Inl KeyboardInterrupt, w)"
    and "stdout_error env PAUSE_SIGN = Some msg"
  shows "main env a = \<lparr>exit_code = 1, printed = out w @ [Print (''Error: '' @ msg)],
      opened = [video a], final_cap = Some (cap_release (cap w))\<rparr>"
proof -
  let ?w0 = "\<lparr>cap = c, out = [], frame_num = 0, delay = Finite 0, ticks = 0\<rparr>"
  have "play env p (arg_start a) ?w0 = (Inl (UnicodeEncodeError msg), cleanup w)"
    using assms(3,4) by (simp add: play_def print_status_def)
  then show ?thesis
    using assms(1,2) by (simp add: main_def cleanup_def is_Exception_def)
qed

text \<open>
  C7. Natural completion and the user's interrupt are claimed to end the process with
  exit code 0, with \<open>Playback stopped by user\<close> or \<open>Video playback complete!\<close> as the
  status line. The standalone script puts a pause sign and a check mark in front of
  these lines and prints them unguarded. On a standard output in Windows-1252 the sample
  clip interrupted in its second iteration ends with exit code 1 and an error message in
  place of the status line, and so does the sample played to its end; the capture is
  released in both runs. On a standard output that can encode the two signs, the same
  two runs end with exit code 0 and the two status lines. The copy of the player that
  the installer writes prints the ASCII tags \<open>[STOP]\<close> and \<open>[DONE]\<close> instead.
\<close>

theorem status_line_needs_encoding:
  "main (cp1252_env (Finite 2) (Some 9)) (sample_args 0) =
     \<lparr>exit_code = 1,
      printed = [Banner ''clip.mp4'' 100 200 1 1 (Finite 30) 2, Pause, ClearScreen,
        CursorHome, Frame (text_block [''@'']), Progress 0 2 (Finite 0),
        Print (''Error: '' @ charmap_error ''23f8'')],
      opened = [''clip.mp4''],
      final_cap = Some ((clip (Finite 2))\<lparr>pos := 2, releases := 1\<rparr>)\<rparr>
   \<and> main (cp1252_env (Finite 2) None) (sample_args 0) =
     \<lparr>exit_code = 1,
      printed = [Banner ''clip.mp4'' 100 200 1 1 (Finite 30) 2, Pause, ClearScreen,
        CursorHome, Frame (text_block [''@'']), Progress 0 2 (Finite 0),
        CursorHome, Frame (text_block ['' '']), Progress 1 2 (Finite 50),
        Print (''Error: '' @ charmap_error ''2713'')],
      opened = [''clip.mp4''],
      final_cap = Some ((clip (Finite 2))\<lparr>pos := 2, releases := 1\<rparr>)\<rparr>
   \<and> statuses (printed (main (sample_env (Finite 2) (Some 9)) (sample_args 0))) =
       [[CHR 0x0A, CHR 0x0A, CHR 0xE2, CHR 0x8F, CHR 0xB8] @ '' Playback stopped by user'']
   \<and> exit_code (main (sample_env (Finite 2) (Some 9)) (sample_args 0)) = 0
   \<and> statuses (printed (main (sample_env (Finite 2) None) (sample_args 0))) =
       [[CHR 0x0A, CHR 0x0A, CHR 0xE2, CHR 0x9C, CHR 0x93] @ '' Video playback complete!'']
   \<and> exit_code (main (sample_env (Finite 2) None) (sample_args 0)) = 0"
proof (intro conjI)
  show "main (cp1252_env (Finite 2) (Some 9)) (sample_args 0) =
     \<lparr>exit_code = 1,
      printed = [Banner ''clip.mp4'' 100 200 1 1 (Finite 30) 2, Pause, ClearScreen,
        CursorHome, Frame (text_block [''@'']), Progress 0 2 (Finite 0),
        Print (''Error: '' @ charmap_error ''23f8'')],
      opened = [''clip.mp4''],
      final_cap = Some ((clip (Finite 2))\<lparr>pos := 2, releases := 1\<rparr>)\<rparr>"
    by (simp add: main_def sample_args_def cp1252_init sample_init sample_eval cp1252_fields
        sample_fields
        is_Exception_def)
  show "main (cp1252_env (Finite 2) None) (sample_args 0) =
     \<lparr>exit_code = 1,
      printed = [Banner ''clip.mp4'' 100 200 1 1 (Finite 30) 2, Pause, ClearScreen,
        CursorHome, Frame (text_block [''@'']), Progress 0 2 (Finite 0),
        CursorHome, Frame (text_block ['' '']), Progress 1 2 (Finite 50),
        Print (''Error: '' @ charmap_error ''2713'')],
      opened = [''clip.mp4''],
      final_cap = Some ((clip (Finite 2))\<lparr>pos := 2, releases := 1\<rparr>)\<rparr>"
    by (simp add: main_def sample_args_def cp1252_init sample_init sample_eval cp1252_fields
        sample_fields
        is_Exception_def)
  have "main (sample_env (Finite 2) (Some 9)) (sample_args 0) =
     \<lparr>exit_code = 0,
      printed = [Banner ''clip.mp4'' 100 200 1 1 (Finite 30) 2, Pause, ClearScreen,
        CursorHome, Frame (text_block [''@'']), Progress 0 2 (Finite 0),
        Print stopped_msg],
      opened = [''clip.mp4''],
      final_cap = Some ((clip (Finite 2))\<lparr>pos := 2, releases := 1\<rparr>)\<rparr>"
    by (simp add: main_def sample_args_def sample_init sample_eval sample_fields)
  then show "statuses (printed (main (sample_env (Finite 2) (Some 9)) (sample_args 0))) =
       [[CHR 0x0A, CHR 0x0A, CHR 0xE2, CHR 0x8F, CHR 0xB8] @ '' Playback stopped by user'']"
    "exit_code (main (sample_env (Finite 2) (Some 9)) (sample_args 0)) = 0"
    by (simp_all add: stopped_msg_def)
  have "main (sample_env (Finite 2) None) (sample_args 0) =
     \<lparr>exit_code = 0,
      printed = [Banner ''clip.mp4'' 100 200 1 1 (Finite 30) 2, Pause, ClearScreen,
        CursorHome, Frame (text_block [''@'']), Progress 0 2 (Finite 0),
        CursorHome, Frame (text_block ['' '']), Progress 1 2 (Finite 50),
        Print complete_msg],
      opened = [''clip.mp4''],
      final_cap = Some ((clip (Finite 2))\<lparr>pos := 2, releases := 1\<rparr>)\<rparr>"
    by (simp add: main_def sample_args_def sample_init sample_eval sample_fields)
  then show "statuses (printed (main (sample_env (Finite 2) None) (sample_args 0))) =
       [[CHR 0x0A, CHR 0x0A, CHR 0xE2, CHR 0x9C, CHR 0x93] @ '' Video playback complete!'']"
    "exit_code (main (sample_env (Finite 2) None) (sample_args 0)) = 0"
    by (simp_all add: complete_msg_def)
qed

section \<open>The command line\<close>



end
